theory Spec2Isabelle
  imports Complex_Main
begin

section \<open>Floating-point values of numpy\<close>

text \<open>
  A numpy \<open>float64\<close> is a finite number, one of the two infinities, or NaN. The finite
  numbers are modelled as exact reals: rounding and overflow are not part of the operations
  of this section. They are added in the section on rounding, for the one function of
  which a claim depends on them.
  Zero carries no sign; it behaves as \<open>+0.0\<close>. Division by zero and the other
  invalid operations do not raise in numpy (they warn): they return an infinity or NaN,
  and the operations below say which.
\<close>

datatype npfloat = Fin real | PInf | NInf | NaN

instantiation npfloat :: "{plus,uminus,minus,times,inverse}"
begin

fun plus_npfloat :: "npfloat \<Rightarrow> npfloat \<Rightarrow> npfloat" where
  "plus_npfloat NaN _ = NaN"
| "plus_npfloat _ NaN = NaN"
| "plus_npfloat (Fin a) (Fin b) = Fin (a + b)"
| "plus_npfloat PInf NInf = NaN"
| "plus_npfloat NInf PInf = NaN"
| "plus_npfloat PInf _ = PInf"
| "plus_npfloat _ PInf = PInf"
| "plus_npfloat NInf _ = NInf"
| "plus_npfloat _ NInf = NInf"

fun uminus_npfloat :: "npfloat \<Rightarrow> npfloat" where
  "uminus_npfloat (Fin a) = Fin (- a)"
| "uminus_npfloat PInf = NInf"
| "uminus_npfloat NInf = PInf"
| "uminus_npfloat NaN = NaN"

definition minus_npfloat :: "npfloat \<Rightarrow> npfloat \<Rightarrow> npfloat" where
  "minus_npfloat x y = x + (- y)"

fun times_npfloat :: "npfloat \<Rightarrow> npfloat \<Rightarrow> npfloat" where
  "times_npfloat NaN _ = NaN"
| "times_npfloat _ NaN = NaN"
| "times_npfloat (Fin a) (Fin b) = Fin (a * b)"
| "times_npfloat (Fin a) PInf = (if a = 0 then NaN else if 0 < a then PInf else NInf)"
| "times_npfloat (Fin a) NInf = (if a = 0 then NaN else if 0 < a then NInf else PInf)"
| "times_npfloat PInf (Fin b) = (if b = 0 then NaN else if 0 < b then PInf else NInf)"
| "times_npfloat NInf (Fin b) = (if b = 0 then NaN else if 0 < b then NInf else PInf)"
| "times_npfloat PInf PInf = PInf"
| "times_npfloat PInf NInf = NInf"
| "times_npfloat NInf PInf = NInf"
| "times_npfloat NInf NInf = PInf"

fun divide_npfloat :: "npfloat \<Rightarrow> npfloat \<Rightarrow> npfloat" where
  "divide_npfloat NaN _ = NaN"
| "divide_npfloat _ NaN = NaN"
| "divide_npfloat (Fin a) (Fin b) =
     (if b \<noteq> 0 then Fin (a / b)
      else if a = 0 then NaN else if 0 < a then PInf else NInf)"
| "divide_npfloat (Fin a) PInf = Fin 0"
| "divide_npfloat (Fin a) NInf = Fin 0"
| "divide_npfloat PInf (Fin b) = (if 0 \<le> b then PInf else NInf)"
| "divide_npfloat NInf (Fin b) = (if 0 \<le> b then NInf else PInf)"
| "divide_npfloat PInf PInf = NaN"
| "divide_npfloat PInf NInf = NaN"
| "divide_npfloat NInf PInf = NaN"
| "divide_npfloat NInf NInf = NaN"

definition inverse_npfloat :: "npfloat \<Rightarrow> npfloat" where
  "inverse_npfloat x = divide (Fin 1) x"

instance ..

end

text \<open>\<open>np.sqrt\<close>, \<open>np.exp\<close> and \<open>np.abs\<close> on one value.\<close>

fun np_sqrt :: "npfloat \<Rightarrow> npfloat" where
  "np_sqrt (Fin a) = (if 0 \<le> a then Fin (sqrt a) else NaN)"
| "np_sqrt PInf = PInf"
| "np_sqrt NInf = NaN"
| "np_sqrt NaN = NaN"

fun np_exp :: "npfloat \<Rightarrow> npfloat" where
  "np_exp (Fin a) = Fin (exp a)"
| "np_exp PInf = PInf"
| "np_exp NInf = Fin 0"
| "np_exp NaN = NaN"

fun np_abs :: "npfloat \<Rightarrow> npfloat" where
  "np_abs (Fin a) = Fin \<bar>a\<bar>"
| "np_abs PInf = PInf"
| "np_abs NInf = PInf"
| "np_abs NaN = NaN"

text \<open>
  The operator \<open>**\<close> with a float base and a finite exponent, which is a literal at every
  use in the notebook. It is C's \<open>pow\<close>: anything to the power 0 is 1, a negative base
  with a fractional exponent is NaN, and zero to a negative power is infinite.
\<close>

fun np_power :: "npfloat \<Rightarrow> real \<Rightarrow> npfloat" where
  "np_power (Fin x) y =
     (if y = 0 then Fin 1
      else if 0 < x then Fin (x powr y)
      else if x = 0 then (if 0 < y then Fin 0 else PInf)
      else if y = of_int \<lfloor>y\<rfloor> then Fin (x powi \<lfloor>y\<rfloor>) else NaN)"
| "np_power PInf y = (if y = 0 then Fin 1 else if 0 < y then PInf else Fin 0)"
| "np_power NInf y =
     (if y = 0 then Fin 1
      else if 0 < y then (if y = of_int \<lfloor>y\<rfloor> \<and> odd \<lfloor>y\<rfloor> then NInf else PInf)
      else Fin 0)"
| "np_power NaN y = (if y = 0 then Fin 1 else NaN)"

section \<open>The empirical formulas\<close>

text \<open>
  \<^verbatim>\<open>xi = elevation_standard_deviation * np.sqrt(2) / mu\<close>
  Both operands are numpy floats, so a zero \<open>mu\<close> does not raise.
\<close>

definition compute_typical_width :: "npfloat \<Rightarrow> npfloat \<Rightarrow> npfloat" where
  "compute_typical_width mu elevation_standard_deviation =
     elevation_standard_deviation * Fin (sqrt 2) / mu"

text \<open>
  \<^verbatim>\<open>F_sky = (1 - (1 - 1 / ((1 + a * mu ** b) ** c)) * np.exp(-d * (L / xi) ** (-2)))\<close>
\<close>

definition compute_sky_view_factor :: "npfloat \<Rightarrow> npfloat \<Rightarrow> real \<Rightarrow> npfloat" where
  "compute_sky_view_factor mu xi L =
     (let a = 3.354688; b = 1.998767; c = 0.20286; d = 5.951
      in Fin 1 - (Fin 1 - Fin 1 / np_power (Fin 1 + Fin a * np_power mu b) c)
                 * np_exp (Fin (- d) * np_power (Fin L / xi) (- 2)))"

text \<open>
  \<^verbatim>\<open>x_dsc_topo = (1 - (a_prime * elevation_laplacian) / (1 + a_prime * np.abs(elevation_laplacian) ** b_prime)) * c_prime / (1 + d_prime + mu ** e_prime)\<close>
\<close>

definition compute_downscaling_factor :: "npfloat \<Rightarrow> npfloat \<Rightarrow> npfloat" where
  "compute_downscaling_factor elevation_laplacian mu =
     (let a_prime = 17.0393; b_prime = 0.737; c_prime = 1.0234; d_prime = 0.3794;
          e_prime = 1.9821
      in (Fin 1 - (Fin a_prime * elevation_laplacian)
                  / (Fin 1 + Fin a_prime * np_power (np_abs elevation_laplacian) b_prime))
         * Fin c_prime / (Fin 1 + Fin d_prime + np_power mu e_prime))"

text \<open>The two formulas as the specification writes them, over the reals.\<close>

definition spec_sky_view_factor :: "real \<Rightarrow> real \<Rightarrow> real \<Rightarrow> real" where
  "spec_sky_view_factor \<mu> \<xi> L =
     1 - (1 - (1 + 3.354688 * \<mu> powr 1.998767) powr (- 0.20286))
         * exp (- 5.951 * (L / \<xi>) powr (- 2))"

definition spec_downscaling_factor :: "real \<Rightarrow> real \<Rightarrow> real" where
  "spec_downscaling_factor lap \<mu> =
     (1 - 17.0393 * lap / (1 + 17.0393 * \<bar>lap\<bar> powr 0.737))
     * 1.0234 / (1 + 0.3794 + \<mu> powr 1.9821)"

text \<open>The denominator of the formula as the cited paper prints it.\<close>

definition paper_downscaling_factor :: "real \<Rightarrow> real \<Rightarrow> real" where
  "paper_downscaling_factor lap \<mu> =
     (1 - 17.0393 * lap / (1 + 17.0393 * \<bar>lap\<bar> powr 0.737))
     * 1.0234 / (1 + 0.3794 * \<mu> powr 1.9821)"

section \<open>Rounding to float64\<close>

text \<open>
  Whether the sky view factor can reach 0 depends on rounding, so that function is
  modelled a second time, with the result of every operation rounded as the machine rounds
  it: to the nearest float64, a tie going to the neighbour with an even significand. The
  float64 numbers around \<open>x\<close> are the integer multiples of \<open>f64_ulp x\<close>, a power of two
  that leaves the significand 53 bits; below \<open>2^(-1022)\<close>, where the subnormal numbers
  begin, the spacing stays \<open>2^(-1074)\<close>. A result that reaches \<open>2^1024\<close> after rounding
  overflows to an infinity. The function \<open>pow\<close> behind \<open>**\<close> and the exponential
  function are taken to round correctly, as the four arithmetic operations do.
\<close>

definition round_half_even :: "real \<Rightarrow> int" where
  "round_half_even q =
     (let f = \<lfloor>q\<rfloor>
      in if q - of_int f < 1 / 2 then f
         else if 1 / 2 < q - of_int f then f + 1
         else if even f then f else f + 1)"

definition f64_exponent :: "real \<Rightarrow> int" where
  "f64_exponent x = max (- 1022) \<lfloor>log 2 \<bar>x\<bar>\<rfloor>"

definition f64_ulp :: "real \<Rightarrow> real" where
  "f64_ulp x = 2 powr (of_int (f64_exponent x) - 52)"

definition f64_round :: "real \<Rightarrow> real" where
  "f64_round x = sgn x * (of_int (round_half_even (\<bar>x\<bar> / f64_ulp x)) * f64_ulp x)"

definition f64_overflow :: real where
  "f64_overflow = 2 ^ 1024"

definition f64 :: "real \<Rightarrow> npfloat" where
  "f64 x = (if f64_overflow \<le> f64_round x then PInf
            else if f64_round x \<le> - f64_overflow then NInf
            else Fin (f64_round x))"

text \<open>The float64 that an operation returns when its exact result is the given value.\<close>

fun to_f64 :: "npfloat \<Rightarrow> npfloat" where
  "to_f64 (Fin x) = f64 x"
| "to_f64 PInf = PInf"
| "to_f64 NInf = NInf"
| "to_f64 NaN = NaN"

text \<open>The comparison \<open><=\<close> of two floats, which is false when one of them is NaN.\<close>

fun np_le :: "npfloat \<Rightarrow> npfloat \<Rightarrow> bool" where
  "np_le NaN _ = False"
| "np_le _ NaN = False"
| "np_le NInf _ = True"
| "np_le _ PInf = True"
| "np_le (Fin a) (Fin b) = (a \<le> b)"
| "np_le (Fin a) NInf = False"
| "np_le PInf _ = False"

text \<open>
  \<^verbatim>\<open>F_sky = (1 - (1 - 1 / ((1 + a * mu ** b) ** c)) * np.exp(-d * (L / xi) ** (-2)))\<close>
  with float64 arithmetic: the four constants are the float64 numbers nearest to their
  decimal literals, and every operation rounds its result, in the order in which Python
  evaluates the expression. The two factors of the product are named here; the source
  has no names for them.
\<close>

definition compute_sky_view_factor_f64 :: "npfloat \<Rightarrow> npfloat \<Rightarrow> real \<Rightarrow> npfloat" where
  "compute_sky_view_factor_f64 mu xi L =
     (let a = f64_round 3.354688; b = f64_round 1.998767; c = f64_round 0.20286;
          d = f64_round 5.951;
          slope_factor =
            to_f64 (Fin 1 - to_f64 (Fin 1 / to_f64 (np_power
              (to_f64 (Fin 1 + to_f64 (Fin a * to_f64 (np_power mu b)))) c)));
          width_factor =
            to_f64 (np_exp (to_f64 (Fin (- d) * to_f64 (np_power (to_f64 (Fin L / xi)) (- 2)))))
      in to_f64 (Fin 1 - to_f64 (slope_factor * width_factor)))"

section \<open>Arrays and slices\<close>

text \<open>
  A two-dimensional numpy array is the list of its rows. An array with no rows does not
  record how wide its rows would have been; no function of the notebook looks at that.
\<close>

definition nrows :: "'a list list \<Rightarrow> nat" where
  "nrows a = length a"

definition ncols :: "'a list list \<Rightarrow> nat" where
  "ncols a = (case a of [] \<Rightarrow> 0 | r # _ \<Rightarrow> length r)"

definition rect :: "nat \<Rightarrow> nat \<Rightarrow> 'a list list \<Rightarrow> bool" where
  "rect h w a \<longleftrightarrow> length a = h \<and> (\<forall>r \<in> set a. length r = w)"

text \<open>
  A bound of a Python slice on a sequence of length \<open>n\<close>: a negative bound counts from
  the end, and every bound is then clipped to \<open>0..n\<close>. A slice never raises.
\<close>

definition slice_index :: "nat \<Rightarrow> int \<Rightarrow> nat" where
  "slice_index n k = (if k < 0 then nat (max 0 (int n + k)) else min n (nat k))"

type_synonym pyslice = "int option \<times> int option"

definition slice_start :: "nat \<Rightarrow> pyslice \<Rightarrow> nat" where
  "slice_start n s = (case fst s of None \<Rightarrow> 0 | Some k \<Rightarrow> slice_index n k)"

definition slice_stop :: "nat \<Rightarrow> pyslice \<Rightarrow> nat" where
  "slice_stop n s = (case snd s of None \<Rightarrow> n | Some k \<Rightarrow> slice_index n k)"

definition py_slice :: "pyslice \<Rightarrow> 'a list \<Rightarrow> 'a list" where
  "py_slice s xs =
     take (slice_stop (length xs) s - slice_start (length xs) s)
          (drop (slice_start (length xs) s) xs)"

text \<open>\<^verbatim>\<open>a[r0:r1, c0:c1]\<close>\<close>

definition slice2 :: "pyslice \<Rightarrow> pyslice \<Rightarrow> 'a list list \<Rightarrow> 'a list list" where
  "slice2 rs cs a = map (py_slice cs) (py_slice rs a)"

datatype py_exn = ValueError | TypeError | RasterError

text \<open>
  \<^verbatim>\<open>a[r0:r1, c0:c1] = v\<close> with a scalar \<open>v\<close>: every cell of the block takes the value.
\<close>

definition setitem_block_scalar ::
  "'a list list \<Rightarrow> pyslice \<Rightarrow> pyslice \<Rightarrow> 'a \<Rightarrow> 'a list list" where
  "setitem_block_scalar a rs cs v =
     (let r0 = slice_start (nrows a) rs; r1 = slice_stop (nrows a) rs;
          c0 = slice_start (ncols a) cs; c1 = slice_stop (ncols a) cs
      in map (\<lambda>i. map (\<lambda>j. if r0 \<le> i \<and> i < r1 \<and> c0 \<le> j \<and> j < c1 then v else a ! i ! j)
                         [0..<length (a ! i)])
             [0..<length a])"

text \<open>
  \<^verbatim>\<open>a[r0:r1, c0:c1] = sub\<close> with an array \<open>sub\<close>: numpy broadcasts \<open>sub\<close> to the shape of
  the block (an axis of length 1 is repeated) and raises ValueError when it cannot.
  An operand with no rows is taken to have the width of the block.
\<close>

definition setitem_block_array ::
  "'a list list \<Rightarrow> pyslice \<Rightarrow> pyslice \<Rightarrow> 'a list list \<Rightarrow> py_exn + 'a list list" where
  "setitem_block_array a rs cs sub =
     (let r0 = slice_start (nrows a) rs; r1 = slice_stop (nrows a) rs;
          c0 = slice_start (ncols a) cs; c1 = slice_stop (ncols a) cs;
          sh = nrows sub; sw = ncols sub
      in if (sh = r1 - r0 \<or> sh = 1) \<and> (sh = 0 \<or> sw = c1 - c0 \<or> sw = 1)
         then Inr (map (\<lambda>i. map (\<lambda>j. if r0 \<le> i \<and> i < r1 \<and> c0 \<le> j \<and> j < c1
                                      then sub ! (if sh = 1 then 0 else i - r0)
                                               ! (if sw = 1 then 0 else j - c0)
                                      else a ! i ! j)
                                [0..<length (a ! i)])
                    [0..<length a])
         else Inl ValueError)"

section \<open>Convolution\<close>

text \<open>
  \<open>scipy.signal.convolve2d\<close> with its default boundary: the input is surrounded by the
  fill value 0. \<open>full_at a k p q\<close> is the entry \<open>(p, q)\<close> of the full convolution,
  the sum of \<open>k[m, n] * a[p - m, q - n]\<close> over the kernel.
\<close>

definition at0 :: "real list list \<Rightarrow> int \<Rightarrow> int \<Rightarrow> real" where
  "at0 a i j =
     (if 0 \<le> i \<and> i < int (length a) \<and> 0 \<le> j \<and> j < int (length (a ! nat i))
      then a ! nat i ! nat j else 0)"

definition full_at :: "real list list \<Rightarrow> real list list \<Rightarrow> int \<Rightarrow> int \<Rightarrow> real" where
  "full_at a k p q =
     (\<Sum>m\<leftarrow>[0..<length k]. \<Sum>n\<leftarrow>[0..<length (k ! m)].
        k ! m ! n * at0 a (p - int m) (q - int n))"

text \<open>
  Mode \<open>same\<close>: the output has the shape of the input and is the centre of the full
  convolution, which starts \<open>(K - 1) div 2\<close> entries in along an axis of kernel length \<open>K\<close>.
\<close>

definition convolve2d_same :: "real list list \<Rightarrow> real list list \<Rightarrow> real list list" where
  "convolve2d_same a k =
     map (\<lambda>i. map (\<lambda>j. full_at a k (int i + (int (nrows k) - 1) div 2)
                                    (int j + (int (ncols k) - 1) div 2))
                   [0..<length (a ! i)])
         [0..<length a]"

text \<open>
  Mode \<open>valid\<close>: only the entries whose whole kernel lies inside the input. When the
  input is smaller than the kernel along an axis, scipy raises ValueError, or (when
  the kernel is at least as large along both axes) swaps the operands, and then the block
  assignment of the only caller raises ValueError on the shapes; the caller sees a
  ValueError either way, which is what this model returns.
\<close>

definition convolve2d_valid ::
  "real list list \<Rightarrow> real list list \<Rightarrow> py_exn + real list list" where
  "convolve2d_valid a k =
     (if nrows a < nrows k \<or> ncols a < ncols k then Inl ValueError
      else Inr (map (\<lambda>i. map (\<lambda>j. full_at a k (int i + int (nrows k) - 1)
                                                (int j + int (ncols k) - 1))
                              [0..<ncols a + 1 - ncols k])
                    [0..<nrows a + 1 - nrows k]))"

section \<open>Slope statistics\<close>

definition np_square :: "real list list \<Rightarrow> real list list" where
  "np_square a = map (map (\<lambda>x. x * x)) a"

definition np_add :: "real list list \<Rightarrow> real list list \<Rightarrow> real list list" where
  "np_add a b = map2 (map2 (+)) a b"

text \<open>\<open>np.mean\<close> of all entries: the sum over the count, which is NaN for an empty array.\<close>

definition np_mean :: "real list list \<Rightarrow> npfloat" where
  "np_mean a = Fin (sum_list (concat a)) / Fin (real (length (concat a)))"

text \<open>\<open>np.std\<close> of all entries: the root of the mean squared deviation from the mean.\<close>

definition np_std :: "real list list \<Rightarrow> npfloat" where
  "np_std a =
     (let xs = concat a; n = real (length xs); m = sum_list xs / n
      in np_sqrt (Fin (\<Sum>x\<leftarrow>xs. \<bar>x - m\<bar> ^ 2) / Fin n))"

definition kernel_1 :: "real list list" where
  "kernel_1 = [[0, 0, 0], [0, 1, 0], [0, - 1, 0]]"

definition kernel_2 :: "real list list" where
  "kernel_2 = [[0, 0, 0], [0, 1, - 1], [0, 0, 0]]"

text \<open>
  \<^verbatim>\<open>member_1 = signal.convolve2d(input_array, kernel_1, mode='same')[1:,:-1]\<close>
  \<^verbatim>\<open>member_2 = signal.convolve2d(input_array, kernel_2, mode='same')[:-1,1:]\<close>
  \<^verbatim>\<open>mu = np.sqrt(np.mean(np.square(member_1) + np.square(member_2))) / (delta_x * np.sqrt(2))\<close>
\<close>

definition compute_mean_squared_slope :: "real list list \<Rightarrow> real \<Rightarrow> npfloat" where
  "compute_mean_squared_slope input_array delta_x =
     (let member_1 = slice2 (Some 1, None) (None, Some (- 1))
                       (convolve2d_same input_array kernel_1);
          member_2 = slice2 (None, Some (- 1)) (Some 1, None)
                       (convolve2d_same input_array kernel_2)
      in np_sqrt (np_mean (np_add (np_square member_1) (np_square member_2)))
         / Fin (delta_x * sqrt 2))"

text \<open>
  The entries whose mean the statistic takes, for a window of \<open>h\<close> rows and \<open>w\<close>
  columns: the squared differences to the next row and to the next column. The lemma
  \<open>mean_squared_slope_rect\<close> derives this form from the convolutions.
\<close>

definition slope_squares :: "nat \<Rightarrow> nat \<Rightarrow> real list list \<Rightarrow> real list list" where
  "slope_squares h w a =
     map (\<lambda>i. map (\<lambda>j. (a ! Suc i ! j - a ! i ! j) * (a ! Suc i ! j - a ! i ! j)
                        + (a ! i ! Suc j - a ! i ! j) * (a ! i ! Suc j - a ! i ! j))
                   [0..<w - Suc 0]) [0..<h - Suc 0]"

section \<open>Elevation Laplacian\<close>

definition laplacian_kernel :: "real list list" where
  "laplacian_kernel = [[0, 1, 0], [1, - 4, 1], [0, 1, 0]]"

text \<open>
  \<^verbatim>\<open>nabla_z_array = signal.convolve2d(input_array, kernel, mode='valid') / (delta_x ** 2)\<close>
  \<^verbatim>\<open>nabla_array_padded = np.ones(input_array.shape) * np.nan\<close>
  \<^verbatim>\<open>nabla_array_padded[1:-1, 1:-1] = nabla_z_array\<close>
  \<^verbatim>\<open>nabla_array_padded = nabla_array_padded * delta_x / 4\<close>
\<close>

definition compute_elevation_laplacien ::
  "real list list \<Rightarrow> real \<Rightarrow> py_exn + npfloat list list" where
  "compute_elevation_laplacien input_array delta_x =
     (case convolve2d_valid input_array laplacian_kernel of
        Inl e \<Rightarrow> Inl e
      | Inr conv \<Rightarrow>
          (let nabla_z_array = map (map (\<lambda>v. Fin v / Fin (delta_x ^ 2))) conv;
               nabla_array_padded = map (map (\<lambda>_. Fin 1 * NaN)) input_array
           in case setitem_block_array nabla_array_padded (Some 1, Some (- 1))
                     (Some 1, Some (- 1)) nabla_z_array of
                Inl e \<Rightarrow> Inl e
              | Inr padded \<Rightarrow> Inr (map (map (\<lambda>v. v * Fin delta_x / Fin 4)) padded)))"

section \<open>Rasters, cells and the two passes\<close>

text \<open>
  The raster object of rasterio as far as the notebook uses it: \<open>read(1)\<close>, the first
  band, and \<open>index(x, y)\<close>, the row and column of a map coordinate. \<open>index\<close> belongs to
  the library; it may raise, and it returns indices outside the array for a coordinate
  outside the raster. The elevations of the band are finite numbers.
\<close>

record dem_raster =
  band1 :: "real list list"
  index :: "real \<Rightarrow> real \<Rightarrow> py_exn + int \<times> int"

text \<open>
  A row of the cell table: the station label, the centroid of the cell polygon, and the
  attribute columns that the first pass adds, by name.
\<close>

record gdf_row =
  Station :: string
  centroid :: "real \<times> real"
  attrs :: "string \<rightharpoonup> npfloat"

text \<open>The two module-level constants \<^verbatim>\<open>delta_x = 20\<close> and \<^verbatim>\<open>L = 2500\<close>.\<close>

definition global_delta_x :: real where
  "global_delta_x = 20"

definition global_L :: real where
  "global_L = 2500"

text \<open>
  The first pass, one row at a time. Everything after the centroid is inside
  \<^verbatim>\<open>try\<close>; the bare \<^verbatim>\<open>except\<close> fills the three columns with NaN. Slicing and the
  float arithmetic do not raise, so the only exception there is one of \<open>index\<close>.
  \<^verbatim>\<open>array_subset = dem_array[(array_coords[0] - 12):(array_coords[0] + 13), (array_coords[1] - 12):(array_coords[1] + 13)]\<close>
\<close>

definition sky_view_factor_processing_wrapper :: "dem_raster \<Rightarrow> gdf_row \<Rightarrow> gdf_row" where
  "sky_view_factor_processing_wrapper dem_raster gdf_row =
     (let dem_array = band1 dem_raster;
          centroid = centroid gdf_row
      in case index dem_raster (fst centroid) (snd centroid) of
           Inr array_coords \<Rightarrow>
             (let array_subset =
                    slice2 (Some (fst array_coords - 12), Some (fst array_coords + 13))
                           (Some (snd array_coords - 12), Some (snd array_coords + 13))
                           dem_array;
                  mu = compute_mean_squared_slope array_subset global_delta_x;
                  xi = compute_typical_width mu (np_std dem_array);
                  F_sky = compute_sky_view_factor mu xi global_L
              in gdf_row\<lparr>attrs := (attrs gdf_row)(''mu'' \<mapsto> mu, ''xi'' \<mapsto> xi,
                                                   ''F_sky'' \<mapsto> F_sky)\<rparr>)
         | Inl _ \<Rightarrow>
             gdf_row\<lparr>attrs := (attrs gdf_row)(''mu'' \<mapsto> NaN, ''xi'' \<mapsto> NaN,
                                                ''F_sky'' \<mapsto> NaN)\<rparr>)"

text \<open>\<^verbatim>\<open>hrdps_cells.apply(lambda x : sky_view_factor_processing_wrapper(dem, x), axis=1)\<close>\<close>

definition attribute_pass :: "dem_raster \<Rightarrow> gdf_row list \<Rightarrow> gdf_row list" where
  "attribute_pass dem hrdps_cells = map (sky_view_factor_processing_wrapper dem) hrdps_cells"

text \<open>
  The second pass. A Python variable of the driver holds an array or, after a failure,
  the integer the wrapper returned.
\<close>

datatype pyval = NdArray "npfloat list list" | PyInt int

definition block_rows :: "int \<times> int \<Rightarrow> pyslice" where
  "block_rows center_coordinates =
     (Some (fst center_coordinates - 62), Some (fst center_coordinates + 63))"

definition block_cols :: "int \<times> int \<Rightarrow> pyslice" where
  "block_cols center_coordinates =
     (Some (snd center_coordinates - 62), Some (snd center_coordinates + 63))"

text \<open>
  \<^verbatim>\<open>array_subset = full_array[(center_coordinates[0] - 62):(center_coordinates[0] + 63), (center_coordinates[1] - 62):(center_coordinates[1] + 63)]\<close>
\<close>

definition subset_array :: "'a list list \<Rightarrow> int \<times> int \<Rightarrow> 'a list list" where
  "subset_array full_array center_coordinates =
     slice2 (block_rows center_coordinates) (block_cols center_coordinates) full_array"

text \<open>
  \<open>np.vectorize(compute_downscaling_factor)\<close> applied to an array and a scalar: it
  raises ValueError on an array without elements (no output types were given), and
  applies the function to every element otherwise.
\<close>

definition compute_downscaling_factor_vectorized ::
  "npfloat list list \<Rightarrow> npfloat \<Rightarrow> py_exn + npfloat list list" where
  "compute_downscaling_factor_vectorized elevation_laplacian mu =
     (if concat elevation_laplacian = [] then Inl ValueError
      else Inr (map (map (\<lambda>v. compute_downscaling_factor v mu)) elevation_laplacian))"

text \<open>Item assignment on a variable of the driver: an integer does not support it.\<close>

definition setitem_scalar :: "pyval \<Rightarrow> pyslice \<Rightarrow> pyslice \<Rightarrow> npfloat \<Rightarrow> py_exn + pyval" where
  "setitem_scalar target rs cs v =
     (case target of
        NdArray a \<Rightarrow> Inr (NdArray (setitem_block_scalar a rs cs v))
      | PyInt _ \<Rightarrow> Inl TypeError)"

definition setitem_array ::
  "pyval \<Rightarrow> pyslice \<Rightarrow> pyslice \<Rightarrow> npfloat list list \<Rightarrow> py_exn + pyval" where
  "setitem_array target rs cs sub =
     (case target of
        NdArray a \<Rightarrow>
          (case setitem_block_array a rs cs sub of
             Inl e \<Rightarrow> Inl e
           | Inr a' \<Rightarrow> Inr (NdArray a'))
      | PyInt _ \<Rightarrow> Inl TypeError)"

text \<open>
  The body of the \<^verbatim>\<open>try\<close> of the wrapper.
  \<^verbatim>\<open>F_sky = compute_sky_view_factor(mu, xi, L)\<close>
  \<^verbatim>\<open>X_dsc_topo_subarray = compute_downscaling_factor_vectorized(nabla_array_subset, mu)\<close>
  \<^verbatim>\<open>F_array[(array_coords[0] - 62):(array_coords[0] + 63), (array_coords[1] - 62):(array_coords[1] + 63)] = F_sky\<close>
  \<^verbatim>\<open>X_array[(array_coords[0] - 62):(array_coords[0] + 63), (array_coords[1] - 62):(array_coords[1] + 63)] = X_dsc_topo_subarray\<close>
  \<^verbatim>\<open>return (F_array, X_array)\<close>
\<close>

definition populate_topo_params ::
  "int \<times> int \<Rightarrow> npfloat \<Rightarrow> npfloat \<Rightarrow> npfloat list list \<Rightarrow> pyval \<Rightarrow> pyval
   \<Rightarrow> py_exn + pyval \<times> pyval" where
  "populate_topo_params array_coords mu xi nabla_array_subset F_array X_array =
     (let F_sky = compute_sky_view_factor mu xi global_L
      in case compute_downscaling_factor_vectorized nabla_array_subset mu of
           Inl e \<Rightarrow> Inl e
         | Inr X_dsc_topo_subarray \<Rightarrow>
             (case setitem_scalar F_array (block_rows array_coords) (block_cols array_coords)
                     F_sky of
                Inl e \<Rightarrow> Inl e
              | Inr F_array' \<Rightarrow>
                  (case setitem_array X_array (block_rows array_coords)
                          (block_cols array_coords) X_dsc_topo_subarray of
                     Inl e \<Rightarrow> Inl e
                   | Inr X_array' \<Rightarrow> Inr (F_array', X_array'))))"

text \<open>
  The wrapper of the second pass. The index, the two windows, \<open>mu\<close> and \<open>xi\<close> are
  computed before the \<^verbatim>\<open>try\<close>: an exception of \<open>index\<close> leaves the wrapper (\<open>Inl\<close>).
  An exception inside the \<^verbatim>\<open>try\<close> is caught, and the wrapper returns
  \<^verbatim>\<open>(-999, -999)\<close>.
\<close>

definition downscaling_parameters_processing_wrapper ::
  "gdf_row \<Rightarrow> dem_raster \<Rightarrow> pyval \<Rightarrow> pyval \<Rightarrow> npfloat list list
   \<Rightarrow> py_exn + pyval \<times> pyval" where
  "downscaling_parameters_processing_wrapper gdf_row dem_raster F_array X_array nabla_array =
     (let dem_array = band1 dem_raster;
          centroid = centroid gdf_row
      in case index dem_raster (fst centroid) (snd centroid) of
           Inl e \<Rightarrow> Inl e
         | Inr array_coords \<Rightarrow>
             (let dem_array_subset = subset_array dem_array array_coords;
                  nabla_array_subset = subset_array nabla_array array_coords;
                  mu = compute_mean_squared_slope dem_array_subset global_delta_x;
                  xi = compute_typical_width mu (np_std dem_array)
              in case populate_topo_params array_coords mu xi nabla_array_subset
                        F_array X_array of
                   Inr arrays \<Rightarrow> Inr arrays
                 | Inl _ \<Rightarrow> Inr (PyInt (- 999), PyInt (- 999))))"

text \<open>
  The loop of the driver rebinds both of its variables to what the wrapper returns:
  \<^verbatim>\<open>for i in range(len(hrdps_cells)):\<close>
  \<^verbatim>\<open>    F_array, X_array = downscaling_parameters_processing_wrapper(c_row, dem, F_array, X_array, nabla_array)\<close>
  An exception that leaves the wrapper ends the loop.
\<close>

fun raster_loop ::
  "gdf_row list \<Rightarrow> dem_raster \<Rightarrow> pyval \<times> pyval \<Rightarrow> npfloat list list
   \<Rightarrow> py_exn + pyval \<times> pyval" where
  "raster_loop [] dem arrays nabla_array = Inr arrays"
| "raster_loop (c_row # rest) dem arrays nabla_array =
     (case downscaling_parameters_processing_wrapper c_row dem (fst arrays) (snd arrays)
             nabla_array of
        Inl e \<Rightarrow> Inl e
      | Inr arrays' \<Rightarrow> raster_loop rest dem arrays' nabla_array)"

text \<open>
  \<^verbatim>\<open>F_array = np.ones(dem_array.shape) * np.nan\<close>
  \<^verbatim>\<open>X_array = np.ones(dem_array.shape) * np.nan\<close>
  \<^verbatim>\<open>nabla_array = compute_elevation_laplacien(dem_array, delta_x)\<close>
\<close>

definition raster_pass :: "dem_raster \<Rightarrow> gdf_row list \<Rightarrow> py_exn + pyval \<times> pyval" where
  "raster_pass dem hrdps_cells =
     (let dem_array = band1 dem;
          F_array = NdArray (map (map (\<lambda>_. Fin 1 * NaN)) dem_array);
          X_array = NdArray (map (map (\<lambda>_. Fin 1 * NaN)) dem_array)
      in case compute_elevation_laplacien dem_array global_delta_x of
           Inl e \<Rightarrow> Inl e
         | Inr nabla_array \<Rightarrow> raster_loop hrdps_cells dem (F_array, X_array) nabla_array)"

section \<open>What one cell writes\<close>

text \<open>
  The pixels of an \<open>h\<close> by \<open>w\<close> raster that the block assignment of a cell with array
  coordinates \<open>rc\<close> reaches, and the values the wrapper computes for that cell: the
  names of the wrapper's local variables, as functions of the raster and the coordinates.
\<close>

definition in_block :: "nat \<Rightarrow> nat \<Rightarrow> int \<times> int \<Rightarrow> nat \<Rightarrow> nat \<Rightarrow> bool" where
  "in_block h w rc p q \<longleftrightarrow>
     slice_start h (block_rows rc) \<le> p \<and> p < slice_stop h (block_rows rc) \<and>
     slice_start w (block_cols rc) \<le> q \<and> q < slice_stop w (block_cols rc)"

definition cell_mu :: "dem_raster \<Rightarrow> int \<times> int \<Rightarrow> npfloat" where
  "cell_mu dem rc = compute_mean_squared_slope (subset_array (band1 dem) rc) global_delta_x"

definition cell_xi :: "dem_raster \<Rightarrow> int \<times> int \<Rightarrow> npfloat" where
  "cell_xi dem rc = compute_typical_width (cell_mu dem rc) (np_std (band1 dem))"

definition cell_F_sky :: "dem_raster \<Rightarrow> int \<times> int \<Rightarrow> npfloat" where
  "cell_F_sky dem rc = compute_sky_view_factor (cell_mu dem rc) (cell_xi dem rc) global_L"

text \<open>The array coordinates of a row of the cell table, when \<open>index\<close> returns.\<close>

definition array_coords_of :: "dem_raster \<Rightarrow> gdf_row \<Rightarrow> py_exn + int \<times> int" where
  "array_coords_of dem gdf_row = index dem (fst (centroid gdf_row)) (snd (centroid gdf_row))"

text \<open>
  A pixel of the first raster at the end of a run of the second pass, when the variable
  still holds an array.
\<close>

definition F_pixel :: "py_exn + pyval \<times> pyval \<Rightarrow> nat \<Rightarrow> nat \<Rightarrow> npfloat option" where
  "F_pixel outcome p q =
     (case outcome of
        Inr (NdArray F, _) \<Rightarrow> Some (F ! p ! q)
      | _ \<Rightarrow> None)"

text \<open>The same pixel of the second raster.\<close>

definition X_pixel :: "py_exn + pyval \<times> pyval \<Rightarrow> nat \<Rightarrow> nat \<Rightarrow> npfloat option" where
  "X_pixel outcome p q =
     (case outcome of
        Inr (_, NdArray X) \<Rightarrow> Some (X ! p ! q)
      | _ \<Rightarrow> None)"

section \<open>Two elevation rasters and their cells\<close>

text \<open>
  A 3 by 3 raster that rises by one per row, with pixels of unit size and the origin at
  the upper left corner; one cell whose centroid falls on the centre pixel, one whose
  centroid lies 63 rows down, so that its block reaches the last two rows of the raster,
  and one whose centroid lies 200 rows down, out of reach of the raster.
\<close>

definition ramp_dem :: dem_raster where
  "ramp_dem = \<lparr>band1 = [[0, 0, 0], [1, 1, 1], [2, 2, 2]],
               index = (\<lambda>x y. Inr (\<lfloor>y\<rfloor>, \<lfloor>x\<rfloor>))\<rparr>"

definition cell_centre :: gdf_row where
  "cell_centre = \<lparr>Station = ''A'', centroid = (3 / 2, 3 / 2), attrs = Map.empty\<rparr>"

definition cell_low :: gdf_row where
  "cell_low = \<lparr>Station = ''C'', centroid = (3 / 2, 127 / 2), attrs = Map.empty\<rparr>"

definition cell_far :: gdf_row where
  "cell_far = \<lparr>Station = ''B'', centroid = (3 / 2, 401 / 2), attrs = Map.empty\<rparr>"

text \<open>
  The cell whose centroid is the centre of the pixel in row \<open>r\<close> and column \<open>c\<close>, for
  rasters with the same georeferencing.
\<close>

definition cell_at :: "int \<Rightarrow> int \<Rightarrow> gdf_row" where
  "cell_at r c = \<lparr>Station = ''D'', centroid = (of_int c + 1 / 2, of_int r + 1 / 2),
                  attrs = Map.empty\<rparr>"

text \<open>
  A raster of 249 rows and 135 columns, large enough for whole windows of both passes:
  the elevation rises by 1 per row down to row 124 and by 2 per row below, and does not
  change along a row.
\<close>

definition bent :: "nat \<Rightarrow> real" where
  "bent i = (if i \<le> 124 then real i else 2 * real i - 124)"

definition bent_dem :: dem_raster where
  "bent_dem = \<lparr>band1 = map (\<lambda>i. replicate 135 (bent i)) [0..<249],
               index = (\<lambda>x y. Inr (\<lfloor>y\<rfloor>, \<lfloor>x\<rfloor>))\<rparr>"

section \<open>Arithmetic that stays finite\<close>

lemma np_power_nonneg:
  "0 \<le> x \<Longrightarrow> 0 < y \<Longrightarrow> np_power (Fin x) y = Fin (x powr y)"
  by (cases "x = 0") auto

lemma np_power_pos:
  "0 < x \<Longrightarrow> np_power (Fin x) y = Fin (x powr y)"
  by auto

lemma one_plus_mult_pos: "0 \<le> (c::real) \<Longrightarrow> 0 \<le> x \<Longrightarrow> 0 < 1 + c * x"
  by (simp add: add_pos_nonneg)

lemma Fin_minus: "Fin x - Fin y = Fin (x - y)"
  by (simp add: minus_npfloat_def)

lemma Fin_divide: "y \<noteq> 0 \<Longrightarrow> Fin x / Fin y = Fin (x / y)"
  by simp

lemma sky_view_factor_finite:
  assumes "0 \<le> \<mu>" "0 < \<xi>" "0 < L"
  shows "compute_sky_view_factor (Fin \<mu>) (Fin \<xi>) L = Fin (spec_sky_view_factor \<mu> \<xi> L)"
proof -
  let ?B = "1 + 3.354688 * \<mu> powr 1.998767"
  have B: "0 < ?B"
    by (rule one_plus_mult_pos) simp_all
  have p1: "np_power (Fin \<mu>) 1.998767 = Fin (\<mu> powr 1.998767)"
    using assms(1) by (intro np_power_nonneg) simp_all
  have p2: "np_power (Fin ?B) 0.20286 = Fin (?B powr 0.20286)"
    using B by (rule np_power_pos)
  have nz: "?B powr 0.20286 \<noteq> 0"
    using B by simp
  have q: "0 < L / \<xi>" "\<xi> \<noteq> 0"
    using assms by simp_all
  have p3: "np_power (Fin (L / \<xi>)) (- 2) = Fin ((L / \<xi>) powr (- 2))"
    using q(1) by (rule np_power_pos)
  have inv: "1 / ?B powr 0.20286 = ?B powr (- 0.20286)"
    by (rule powr_minus_divide [symmetric])
  show ?thesis
    unfolding compute_sky_view_factor_def spec_sky_view_factor_def Let_def
    by (simp only: p1 p2 p3 times_npfloat.simps plus_npfloat.simps Fin_minus
        Fin_divide [OF nz] Fin_divide [OF q(2)] np_exp.simps inv)
qed

lemma downscaling_factor_finite:
  assumes "0 \<le> \<mu>"
  shows "compute_downscaling_factor (Fin lap) (Fin \<mu>) = Fin (spec_downscaling_factor lap \<mu>)"
proof -
  let ?D = "1 + 17.0393 * \<bar>lap\<bar> powr 0.737"
  let ?E = "1 + 0.3794 + \<mu> powr 1.9821"
  have "0 < ?D"
    by (rule one_plus_mult_pos) simp_all
  then have D: "?D \<noteq> 0"
    by (rule less_imp_neq [THEN not_sym])
  have "0 < ?E"
    by (intro add_pos_nonneg) simp_all
  then have E: "?E \<noteq> 0"
    by (rule less_imp_neq [THEN not_sym])
  have p1: "np_power (Fin \<bar>lap\<bar>) 0.737 = Fin (\<bar>lap\<bar> powr 0.737)"
    by (intro np_power_nonneg) simp_all
  have p2: "np_power (Fin \<mu>) 1.9821 = Fin (\<mu> powr 1.9821)"
    using assms by (intro np_power_nonneg) simp_all
  show ?thesis
    unfolding compute_downscaling_factor_def spec_downscaling_factor_def Let_def
    by (simp only: np_abs.simps p1 p2 times_npfloat.simps plus_npfloat.simps Fin_minus
        Fin_divide [OF D] Fin_divide [OF E])
qed

lemma powr_neg_less_one: "1 < (x::real) \<Longrightarrow> 0 < c \<Longrightarrow> x powr (- c) < 1"
  using powr_less_mono [of "- c" 0 x] by simp

lemma svf_inner_bounds:
  fixes \<mu> :: real
  assumes "0 < \<mu>"
  shows "0 < 1 - (1 + 3.354688 * \<mu> powr 1.998767) powr (- 0.20286)"
    and "1 - (1 + 3.354688 * \<mu> powr 1.998767) powr (- 0.20286) < 1"
proof -
  let ?B = "1 + 3.354688 * \<mu> powr 1.998767"
  have "0 < 3.354688 * \<mu> powr 1.998767"
    using assms by (intro mult_pos_pos) simp_all
  then have B: "1 < ?B" by (rule less_add_same_cancel1 [THEN iffD2])
  have "?B powr (- 0.20286) < 1"
    using B by (rule powr_neg_less_one) simp
  then show "0 < 1 - ?B powr (- 0.20286)" by simp
  have "0 < ?B" using B by (rule less_trans [OF zero_less_one])
  then have "0 < ?B powr (- 0.20286)" by simp
  then show "1 - ?B powr (- 0.20286) < 1" by simp
qed

lemma spec_sky_view_factor_bounds:
  assumes "0 < \<mu>" "0 < \<xi>" "0 < L"
  shows "0 < spec_sky_view_factor \<mu> \<xi> L" and "spec_sky_view_factor \<mu> \<xi> L < 1"
proof -
  let ?A = "1 - (1 + 3.354688 * \<mu> powr 1.998767) powr (- 0.20286)"
  let ?E = "exp (- 5.951 * (L / \<xi>) powr (- 2))"
  have A: "0 < ?A" "?A < 1" using svf_inner_bounds [OF assms(1)] by blast+
  have "- 5.951 * (L / \<xi>) powr (- 2) \<le> 0"
    by (intro mult_nonpos_nonneg) simp_all
  then have E: "0 < ?E" "?E \<le> 1" by simp_all
  have "?A * ?E < 1 * 1"
    using A E by (intro mult_less_le_imp_less) simp_all
  then show "0 < spec_sky_view_factor \<mu> \<xi> L"
    unfolding spec_sky_view_factor_def by simp
  have "0 < ?A * ?E" using A(1) E(1) by (rule mult_pos_pos)
  then show "spec_sky_view_factor \<mu> \<xi> L < 1"
    unfolding spec_sky_view_factor_def by simp
qed

lemma spec_sky_view_factor_mono:
  assumes "0 < \<mu>" "0 < L" "0 < \<xi>1" "\<xi>1 \<le> \<xi>2"
  shows "spec_sky_view_factor \<mu> \<xi>1 L \<le> spec_sky_view_factor \<mu> \<xi>2 L"
proof -
  let ?A = "1 - (1 + 3.354688 * \<mu> powr 1.998767) powr (- 0.20286)"
  have A: "0 < ?A" using svf_inner_bounds(1) [OF assms(1)] .
  have q: "0 < L / \<xi>2" "L / \<xi>2 \<le> L / \<xi>1"
    using assms by (simp_all add: frac_le)
  have t: "(L / \<xi>1) powr (- 2) \<le> (L / \<xi>2) powr (- 2)"
    using q by (intro powr_mono2') simp_all
  have "- 5.951 * (L / \<xi>2) powr (- 2) \<le> - 5.951 * (L / \<xi>1) powr (- 2)"
    using t by (intro mult_left_mono_neg) simp_all
  then have "exp (- 5.951 * (L / \<xi>2) powr (- 2)) \<le> exp (- 5.951 * (L / \<xi>1) powr (- 2))"
    by (simp only: exp_le_cancel_iff)
  then have "?A * exp (- 5.951 * (L / \<xi>2) powr (- 2)) \<le> ?A * exp (- 5.951 * (L / \<xi>1) powr (- 2))"
    using A by (intro mult_left_mono) simp_all
  then show ?thesis
    unfolding spec_sky_view_factor_def by (rule diff_left_mono)
qed

lemma paper_denominator_differs:
  assumes "0 \<le> \<mu>"
  shows "spec_downscaling_factor 0 \<mu> \<noteq> paper_downscaling_factor 0 \<mu>"
proof -
  define m where "m = \<mu> powr 1.9821"
  define d :: real where "d = 0.3794"
  have m: "0 \<le> m" by (simp add: m_def)
  have d: "0 < d" "d < 1" by (simp_all add: d_def)
  have "d * m \<le> 1 * m" using d m by (intro mult_right_mono) simp_all
  then have ne: "1 + d + m \<noteq> 1 + d * m" using d by simp
  have pos: "0 < 1 + d + m" "0 < 1 + d * m"
    using m d by (simp_all add: add_pos_nonneg)
  have "1.0234 / (1 + d + m) \<noteq> 1.0234 / (1 + d * m)"
    using ne pos by (simp add: field_simps)
  then show ?thesis
    unfolding spec_downscaling_factor_def paper_downscaling_factor_def m_def d_def
    by simp
qed

section \<open>Claims on the empirical formulas\<close>

text \<open>
  Claim C5. For every \<open>\<mu> \<ge> 0\<close>, \<open>\<xi> > 0\<close> and \<open>L > 0\<close>, \<open>compute_sky_view_factor\<close>
  returns \<open>1 - (1 - (1 + a \<mu>^b)^(-c)) exp(-d (L/\<xi>)^(-2))\<close> with \<open>a = 3.354688\<close>,
  \<open>b = 1.998767\<close>, \<open>c = 0.20286\<close> and \<open>d = 5.951\<close>. The code divides 1 by the power
  \<open>c\<close> where the formula has the power \<open>-c\<close>; over exact reals the two agree, and
  no intermediate value leaves the finite numbers.
\<close>

theorem C5_sky_view_factor_formula:
  assumes "0 \<le> \<mu>" "0 < \<xi>" "0 < L"
  shows "compute_sky_view_factor (Fin \<mu>) (Fin \<xi>) L =
         Fin (1 - (1 - (1 + 3.354688 * \<mu> powr 1.998767) powr (- 0.20286))
                  * exp (- 5.951 * (L / \<xi>) powr (- 2)))"
  using sky_view_factor_finite [OF assms] by (simp only: spec_sky_view_factor_def)

theorem C5_sky_view_factor_formula_witness:
  "(0::real) \<le> 1/2 \<and> (0::real) < 100 \<and> (0::real) < 2500 \<and>
   compute_sky_view_factor (Fin (1/2)) (Fin 100) 2500 =
     Fin (1 - (1 - (1 + 3.354688 * (1/2) powr 1.998767) powr (- 0.20286))
              * exp (- 5.951 * (2500 / 100) powr (- 2)))"
  using C5_sky_view_factor_formula [of "1/2" 100 2500] by simp

text \<open>
  Claim C6. For every finite Laplacian value and every \<open>\<mu> \<ge> 0\<close>,
  \<open>compute_downscaling_factor\<close> returns
  \<open>(1 - a' lap / (1 + a' |lap|^b')) c' / (1 + d' + \<mu>^e')\<close> with \<open>a' = 17.0393\<close>,
  \<open>b' = 0.737\<close>, \<open>c' = 1.0234\<close>, \<open>d' = 0.3794\<close> and \<open>e' = 1.9821\<close>. The denominator
  is the sum \<open>1 + d' + \<mu>^e'\<close>: at a zero Laplacian the result differs, for every
  \<open>\<mu> \<ge> 0\<close>, from the formula with the denominator \<open>1 + d' \<mu>^e'\<close>.
\<close>

theorem C6_downscaling_factor_formula:
  assumes "0 \<le> \<mu>"
  shows "compute_downscaling_factor (Fin lap) (Fin \<mu>) =
           Fin ((1 - 17.0393 * lap / (1 + 17.0393 * \<bar>lap\<bar> powr 0.737))
                * 1.0234 / (1 + 0.3794 + \<mu> powr 1.9821))
         \<and> compute_downscaling_factor (Fin 0) (Fin \<mu>) \<noteq>
           Fin (paper_downscaling_factor 0 \<mu>)"
proof
  show "compute_downscaling_factor (Fin lap) (Fin \<mu>) =
           Fin ((1 - 17.0393 * lap / (1 + 17.0393 * \<bar>lap\<bar> powr 0.737))
                * 1.0234 / (1 + 0.3794 + \<mu> powr 1.9821))"
    using downscaling_factor_finite [OF assms] by (simp only: spec_downscaling_factor_def)
  show "compute_downscaling_factor (Fin 0) (Fin \<mu>) \<noteq> Fin (paper_downscaling_factor 0 \<mu>)"
    using paper_denominator_differs [OF assms]
    by (simp add: downscaling_factor_finite [OF assms])
qed

theorem C6_downscaling_factor_formula_witness:
  "(0::real) \<le> 1/2 \<and>
   compute_downscaling_factor (Fin (1/100)) (Fin (1/2)) =
     Fin ((1 - 17.0393 * (1/100) / (1 + 17.0393 * \<bar>1/100\<bar> powr 0.737))
          * 1.0234 / (1 + 0.3794 + (1/2) powr 1.9821))
   \<and> compute_downscaling_factor (Fin 0) (Fin (1/2)) \<noteq>
       Fin (paper_downscaling_factor 0 (1/2))"
  using C6_downscaling_factor_formula [of "1/2" "1/100"] by simp

section \<open>Rounding to the nearest integer\<close>

lemma round_half_even_of_int: "round_half_even (of_int n) = n"
  by (simp add: round_half_even_def)

lemma round_half_even_bounds:
  "\<lfloor>q\<rfloor> \<le> round_half_even q" "round_half_even q \<le> \<lfloor>q\<rfloor> + 1"
  by (simp_all add: round_half_even_def Let_def)

lemma round_half_even_mono:
  assumes "q \<le> q'"
  shows "round_half_even q \<le> round_half_even q'"
proof (cases "\<lfloor>q\<rfloor> = \<lfloor>q'\<rfloor>")
  case True
  then show ?thesis
    using assms by (auto simp: round_half_even_def Let_def)
next
  case False
  then have "\<lfloor>q\<rfloor> + 1 \<le> \<lfloor>q'\<rfloor>"
    using floor_mono [OF assms] by simp
  then show ?thesis
    using round_half_even_bounds(2) [of q] round_half_even_bounds(1) [of q'] by simp
qed

lemma round_half_even_ge: "of_int n \<le> q \<Longrightarrow> n \<le> round_half_even q"
  using round_half_even_mono [of "of_int n" q] by (simp add: round_half_even_of_int)

lemma round_half_even_le: "q \<le> of_int n \<Longrightarrow> round_half_even q \<le> n"
  using round_half_even_mono [of q "of_int n"] by (simp add: round_half_even_of_int)

lemma round_half_even_error: "\<bar>of_int (round_half_even q) - q\<bar> \<le> 1 / 2"
proof -
  have "of_int \<lfloor>q\<rfloor> \<le> q" "q < of_int \<lfloor>q\<rfloor> + 1" by linarith+
  then show ?thesis
    by (auto simp: round_half_even_def Let_def abs_le_iff)
qed

lemma round_half_even_near:
  assumes "of_int n - 1 / 2 < q" "q < of_int n + 1 / 2"
  shows "round_half_even q = n"
proof -
  have "\<bar>of_int (round_half_even q) - q\<bar> \<le> 1 / 2" by (rule round_half_even_error)
  then have "\<bar>(of_int (round_half_even q) :: real) - of_int n\<bar> < 1"
    using assms by linarith
  then have "\<bar>round_half_even q - n\<bar> < 1"
    by (metis of_int_abs of_int_diff of_int_less_1_iff)
  then show ?thesis by simp
qed

section \<open>Rounding to the nearest float64\<close>

lemma pow2_pos: "0 < (2::real) powr a"
  by simp

lemma floor_log2_bounds:
  assumes "0 < x"
  shows "2 powr of_int \<lfloor>log 2 x\<rfloor> \<le> x" and "x < 2 powr (of_int \<lfloor>log 2 x\<rfloor> + 1)"
proof -
  have x: "2 powr log 2 x = x" using assms by simp
  have "of_int \<lfloor>log 2 x\<rfloor> \<le> log 2 x" by simp
  then have "2 powr of_int \<lfloor>log 2 x\<rfloor> \<le> 2 powr log 2 x"
    by (intro powr_mono) simp_all
  then show "2 powr of_int \<lfloor>log 2 x\<rfloor> \<le> x" by (simp only: x)
  have "log 2 x < of_int \<lfloor>log 2 x\<rfloor> + 1" by linarith
  then have "2 powr log 2 x < 2 powr (of_int \<lfloor>log 2 x\<rfloor> + 1)"
    by (intro powr_less_mono) simp_all
  then show "x < 2 powr (of_int \<lfloor>log 2 x\<rfloor> + 1)" by (simp only: x)
qed

lemma floor_log2_unique:
  assumes "2 powr of_int k \<le> x" "x < 2 powr (of_int k + 1)"
  shows "\<lfloor>log 2 x\<rfloor> = k"
proof -
  have x: "0 < x" using assms(1) by (rule less_le_trans [OF pow2_pos]) 
  have "log 2 (2 powr of_int k) \<le> log 2 x"
    using assms(1) x by (simp del: log_powr_cancel)
  moreover have "log 2 x < log 2 (2 powr (of_int k + 1))"
    using assms(2) x by (simp del: log_powr_cancel)
  ultimately have "of_int k \<le> log 2 x" "log 2 x < of_int k + 1"
    by simp_all
  then show ?thesis by linarith
qed

lemma f64_ulp_pos: "0 < f64_ulp x"
  by (simp add: f64_ulp_def)

lemma f64_round_pos:
  "0 < x \<Longrightarrow> f64_round x = of_int (round_half_even (x / f64_ulp x)) * f64_ulp x"
  by (simp add: f64_round_def)

lemma f64_round_zero: "f64_round 0 = 0"
  by (simp add: f64_round_def)

lemma f64_round_minus: "f64_round (- x) = - f64_round x"
  by (simp add: f64_round_def f64_ulp_def f64_exponent_def sgn_minus)

lemma f64_round_nonneg: "0 \<le> x \<Longrightarrow> 0 \<le> f64_round x"
proof (cases "x = 0")
  case True then show ?thesis by (simp add: f64_round_zero)
next
  case False
  assume "0 \<le> x"
  then have x: "0 < x" using False by simp
  have "0 \<le> x / f64_ulp x" using x f64_ulp_pos [of x] by simp
  then have "0 \<le> round_half_even (x / f64_ulp x)"
    using round_half_even_ge [of 0] by simp
  then show ?thesis
    unfolding f64_round_pos [OF x] using f64_ulp_pos [of x] by simp
qed

lemma pow2_int: "0 \<le> m \<Longrightarrow> (2::real) powr of_int m = of_int (2 ^ nat m)"
  using powr_realpow [of 2 "nat m"] by simp

lemma f64_round_ge_pow2:
  assumes "2 powr of_int k \<le> x" "- 1022 \<le> k"
  shows "2 powr of_int k \<le> f64_round x"
proof -
  have x: "0 < x" using assms(1) by (rule less_le_trans [OF pow2_pos])
  let ?l = "\<lfloor>log 2 x\<rfloor>"
  have "log 2 (2 powr of_int k) \<le> log 2 x"
    using assms(1) x by (simp del: log_powr_cancel)
  then have kl: "k \<le> ?l" by (simp add: le_floor_iff)
  then have e: "f64_exponent x = ?l"
    using assms(2) x by (simp add: f64_exponent_def)
  have u: "f64_ulp x = 2 powr (of_int ?l - 52)"
    by (simp add: f64_ulp_def e)
  have "2 powr of_int ?l / f64_ulp x \<le> x / f64_ulp x"
    using floor_log2_bounds(1) [OF x] f64_ulp_pos [of x] by (simp add: divide_right_mono)
  moreover have "2 powr of_int ?l / f64_ulp x = of_int (2 ^ 52)"
    unfolding u by (simp add: powr_diff)
  ultimately have "2 ^ 52 \<le> round_half_even (x / f64_ulp x)"
    by (intro round_half_even_ge) simp
  then have "of_int (2 ^ 52) * f64_ulp x \<le> f64_round x"
    unfolding f64_round_pos [OF x] using f64_ulp_pos [of x]
    by (intro mult_right_mono) simp_all
  moreover have "of_int (2 ^ 52) * f64_ulp x = 2 powr of_int ?l"
    unfolding u by (simp add: powr_diff)
  moreover have "2 powr of_int k \<le> (2::real) powr of_int ?l"
    using kl by (intro powr_mono) simp_all
  ultimately show ?thesis by linarith
qed

lemma f64_round_le_pow2:
  assumes "x \<le> 2 powr of_int k" "- 1022 \<le> k"
  shows "f64_round x \<le> 2 powr of_int k"
proof (cases "0 < x")
  case False
  then have "f64_round x \<le> 0"
    using f64_round_nonneg [of "- x"] by (simp add: f64_round_minus)
  then show ?thesis
    by (rule order_trans) simp
next
  case x: True
  let ?e = "f64_exponent x"
  have "log 2 x \<le> log 2 (2 powr of_int k)"
    using assms(1) x by (simp del: log_powr_cancel)
  then have "\<lfloor>log 2 x\<rfloor> \<le> k" by (simp add: floor_le_iff) 
  then have ek: "?e \<le> k"
    using assms(2) x by (simp add: f64_exponent_def)
  define m where "m = k - ?e + 52"
  have m: "0 \<le> m" using ek by (simp add: m_def)
  have "x / f64_ulp x \<le> 2 powr of_int k / f64_ulp x"
    using assms(1) f64_ulp_pos [of x] by (simp add: divide_right_mono)
  moreover have "2 powr of_int k / f64_ulp x = 2 powr of_int m"
    by (simp add: f64_ulp_def m_def powr_diff powr_add field_simps)
  ultimately have "x / f64_ulp x \<le> of_int (2 ^ nat m)"
    by (simp only: pow2_int [OF m])
  then have "round_half_even (x / f64_ulp x) \<le> 2 ^ nat m"
    by (rule round_half_even_le)
  then have "f64_round x \<le> of_int (2 ^ nat m) * f64_ulp x"
    unfolding f64_round_pos [OF x] using f64_ulp_pos [of x]
    by (intro mult_right_mono) simp_all
  moreover have "of_int (2 ^ nat m) * f64_ulp x = 2 powr of_int k"
    unfolding pow2_int [OF m, symmetric]
    by (simp add: f64_ulp_def m_def powr_diff powr_add field_simps)
  ultimately show ?thesis by simp
qed

lemma f64_round_pow2: "- 1022 \<le> k \<Longrightarrow> f64_round (2 powr of_int k) = 2 powr of_int k"
  using f64_round_ge_pow2 [of k "2 powr of_int k"] f64_round_le_pow2 [of "2 powr of_int k" k]
  by simp

lemma f64_round_one: "f64_round 1 = 1"
  using f64_round_pow2 [of 0] by simp

lemma f64_exponent_mono:
  assumes "0 < x" "x \<le> y"
  shows "f64_exponent x \<le> f64_exponent y"
proof -
  have "log 2 x \<le> log 2 y" using assms by simp
  then have "\<lfloor>log 2 x\<rfloor> \<le> \<lfloor>log 2 y\<rfloor>" by (rule floor_mono)
  then show ?thesis using assms by (simp add: f64_exponent_def)
qed

lemma f64_round_mono_pos:
  assumes "0 < x" "x \<le> y"
  shows "f64_round x \<le> f64_round y"
proof (cases "f64_exponent x = f64_exponent y")
  case True
  then have u: "f64_ulp y = f64_ulp x" by (simp add: f64_ulp_def)
  have y: "0 < y" using assms by simp
  have "x / f64_ulp x \<le> y / f64_ulp x"
    using assms(2) f64_ulp_pos [of x] by (simp add: divide_right_mono)
  then have "round_half_even (x / f64_ulp x) \<le> round_half_even (y / f64_ulp x)"
    by (rule round_half_even_mono)
  then show ?thesis
    unfolding f64_round_pos [OF assms(1)] f64_round_pos [OF y] u
    using f64_ulp_pos [of x] by (intro mult_right_mono) simp_all
next
  case False
  have y: "0 < y" using assms by simp
  let ?k = "f64_exponent y"
  have lt: "f64_exponent x < ?k"
    using False f64_exponent_mono [OF assms] by simp
  have "- 1022 \<le> f64_exponent x" by (simp add: f64_exponent_def)
  then have k: "- 1022 < ?k" using lt by simp
  then have ky: "?k = \<lfloor>log 2 y\<rfloor>"
    using y by (simp add: f64_exponent_def max_def split: if_splits)
  have "2 powr of_int ?k \<le> y"
    unfolding ky by (rule floor_log2_bounds(1) [OF y])
  then have up: "2 powr of_int ?k \<le> f64_round y"
    using k by (intro f64_round_ge_pow2) simp_all
  have "\<lfloor>log 2 x\<rfloor> \<le> f64_exponent x"
    using assms(1) by (simp add: f64_exponent_def)
  then have "\<lfloor>log 2 x\<rfloor> + 1 \<le> ?k" using lt by simp
  then have "(of_int \<lfloor>log 2 x\<rfloor> :: real) + 1 \<le> of_int ?k"
    by (metis of_int_1 of_int_add of_int_le_iff)
  then have "(2::real) powr (of_int \<lfloor>log 2 x\<rfloor> + 1) \<le> 2 powr of_int ?k"
    by (intro powr_mono) simp_all
  then have "x \<le> 2 powr of_int ?k"
    using floor_log2_bounds(2) [OF assms(1)] by linarith
  then have "f64_round x \<le> 2 powr of_int ?k"
    using k by (intro f64_round_le_pow2) simp_all
  then show ?thesis using up by simp
qed

lemma f64_round_mono:
  assumes "x \<le> y"
  shows "f64_round x \<le> f64_round y"
proof -
  consider "0 < x" | "x \<le> 0" "0 \<le> y" | "y < 0" by linarith
  then show ?thesis
  proof cases
    case 1 then show ?thesis using assms by (rule f64_round_mono_pos)
  next
    case 2
    then have "f64_round x \<le> 0" "0 \<le> f64_round y"
      using f64_round_nonneg [of "- x"] f64_round_nonneg [of y]
      by (simp_all add: f64_round_minus)
    then show ?thesis by simp
  next
    case 3
    then have "f64_round (- y) \<le> f64_round (- x)"
      using assms by (intro f64_round_mono_pos) simp_all
    then show ?thesis by (simp add: f64_round_minus)
  qed
qed

lemma f64_round_error:
  assumes "2 powr of_int k \<le> x" "x < 2 powr (of_int k + 1)" "- 1022 \<le> k"
  shows "\<bar>f64_round x - x\<bar> \<le> 2 powr (of_int k - 53)"
proof -
  have x: "0 < x" using assms(1) by (rule less_le_trans [OF pow2_pos])
  have "\<lfloor>log 2 x\<rfloor> = k" by (rule floor_log2_unique [OF assms(1,2)])
  then have e: "f64_exponent x = k"
    using assms(3) x by (simp add: f64_exponent_def)
  have u: "f64_ulp x = 2 powr (of_int k - 52)"
    by (simp add: f64_ulp_def e)
  let ?q = "x / f64_ulp x"
  have "f64_round x - x = (of_int (round_half_even ?q) - ?q) * f64_ulp x"
    unfolding f64_round_pos [OF x] using f64_ulp_pos [of x] by (simp add: field_simps)
  then have "\<bar>f64_round x - x\<bar> = \<bar>of_int (round_half_even ?q) - ?q\<bar> * f64_ulp x"
    using f64_ulp_pos [of x] by (simp add: abs_mult)
  also have "\<dots> \<le> 1 / 2 * f64_ulp x"
    using round_half_even_error [of ?q] f64_ulp_pos [of x]
    by (intro mult_right_mono) simp_all
  also have "\<dots> = 2 powr (of_int k - 53)"
    unfolding u by (simp add: powr_diff)
  finally show ?thesis .
qed

section \<open>Order and rounding\<close>

lemma f64_overflow_gt: "2 < f64_overflow"
proof -
  have "(2::real) ^ 1 < 2 ^ 1024" by (rule power_strict_increasing) simp_all
  then show ?thesis by (simp only: f64_overflow_def power_one_right)
qed

lemma f64_cases:
  obtains r where "f64 x = Fin r" "r = f64_round x" | "f64 x = PInf" | "f64 x = NInf"
  by (cases "f64_overflow \<le> f64_round x"; cases "f64_round x \<le> - f64_overflow")
     (simp_all add: f64_def)

lemma f64_mono: "x \<le> y \<Longrightarrow> np_le (f64 x) (f64 y)"
  using f64_round_mono [of x y] f64_overflow_gt by (auto simp: f64_def)

lemma to_f64_mono: "np_le x y \<Longrightarrow> np_le (to_f64 x) (to_f64 y)"
proof (cases x; cases y)
  fix a b assume "np_le x y" "x = Fin a" "y = Fin b"
  then show ?thesis by (simp add: f64_mono)
next
  fix a assume "x = Fin a" "y = PInf"
  then show ?thesis by (cases a rule: f64_cases) simp_all
next
  fix b assume "x = NInf" "y = Fin b"
  then show ?thesis by (cases b rule: f64_cases) simp_all
qed simp_all

lemma to_f64_zero: "to_f64 (Fin 0) = Fin 0"
  using f64_overflow_gt by (simp add: f64_def f64_round_zero)

lemma to_f64_one: "to_f64 (Fin 1) = Fin 1"
  using f64_overflow_gt by (simp add: f64_def f64_round_one)

lemma to_f64_nonneg: "np_le (Fin 0) x \<Longrightarrow> np_le (Fin 0) (to_f64 x)"
  using to_f64_mono [of "Fin 0" x] by (simp only: to_f64_zero)

lemma to_f64_ge_one: "np_le (Fin 1) x \<Longrightarrow> np_le (Fin 1) (to_f64 x)"
  using to_f64_mono [of "Fin 1" x] by (simp only: to_f64_one)

lemma to_f64_le_one: "np_le x (Fin 1) \<Longrightarrow> np_le (to_f64 x) (Fin 1)"
  using to_f64_mono [of x "Fin 1"] by (simp only: to_f64_one)

lemma to_f64_nonpos: "np_le x (Fin 0) \<Longrightarrow> np_le (to_f64 x) (Fin 0)"
  using to_f64_mono [of x "Fin 0"] by (simp only: to_f64_zero)

lemma np_le_unit:
  assumes "np_le (Fin 0) t" "np_le t (Fin 1)"
  obtains r where "t = Fin r" "0 \<le> r" "r \<le> 1"
  using assms by (cases t) simp_all

section \<open>The steps of the sky view factor\<close>

lemma times_pos_nonneg: "0 < a \<Longrightarrow> np_le (Fin 0) t \<Longrightarrow> np_le (Fin 0) (Fin a * t)"
  by (cases t) simp_all

lemma one_plus_nonneg: "np_le (Fin 0) t \<Longrightarrow> np_le (Fin 1) (Fin 1 + t)"
  by (cases t) simp_all

lemma np_power_ge_one: "0 < c \<Longrightarrow> np_le (Fin 1) t \<Longrightarrow> np_le (Fin 1) (np_power t c)"
  by (cases t) (simp_all add: ge_one_powr_ge_zero)

lemma one_over_ge_one:
  assumes "np_le (Fin 1) t"
  shows "np_le (Fin 0) (Fin 1 / t)" and "np_le (Fin 1 / t) (Fin 1)"
  using assms by (cases t; simp)+

lemma one_minus_unit:
  assumes "np_le (Fin 0) t" "np_le t (Fin 1)"
  shows "np_le (Fin 0) (Fin 1 - t)" and "np_le (Fin 1 - t) (Fin 1)"
  using assms by (cases t; simp add: minus_npfloat_def)+

lemma ratio_antitone:
  assumes "0 < L" "0 < \<xi>1" "\<xi>1 \<le> \<xi>2"
  shows "np_le (Fin 0) (Fin L / Fin \<xi>2)" and "np_le (Fin L / Fin \<xi>2) (Fin L / Fin \<xi>1)"
  using assms by (simp_all add: frac_le)

lemma inverse_square_antitone:
  assumes "np_le (Fin 0) x" "np_le x y"
  shows "np_le (Fin 0) (np_power y (- 2))" and "np_le (np_power y (- 2)) (np_power x (- 2))"
proof -
  show "np_le (Fin 0) (np_power y (- 2))"
    using assms by (cases x; cases y) (simp_all add: not_less)
  show "np_le (np_power y (- 2)) (np_power x (- 2))"
  proof (cases x; cases y)
    fix a b assume xy: "x = Fin a" "y = Fin b"
    then have ab: "0 \<le> a" "a \<le> b" using assms by simp_all
    show ?thesis
    proof (cases "a = 0")
      case True
      then show ?thesis using ab xy by (cases "b = 0") simp_all
    next
      case False
      then have "0 < a" using ab by simp
      then have "b powr (- 2) \<le> a powr (- 2)"
        using ab(2) by (intro powr_mono2') simp_all
      then show ?thesis using \<open>0 < a\<close> ab xy by simp
    qed
  qed (use assms in simp_all)
qed

lemma times_neg_antitone:
  assumes "0 < d" "np_le (Fin 0) x" "np_le x y"
  shows "np_le (Fin (- d) * y) (Fin 0)" and "np_le (Fin (- d) * y) (Fin (- d) * x)"
proof -
  show "np_le (Fin (- d) * y) (Fin 0)"
    using assms by (cases x; cases y) (simp_all add: mult_nonneg_nonneg)
  show "np_le (Fin (- d) * y) (Fin (- d) * x)"
    using assms by (cases x; cases y) simp_all
qed

lemma np_exp_mono: "np_le x y \<Longrightarrow> np_le (np_exp x) (np_exp y)"
  by (cases x; cases y) simp_all

lemma np_exp_unit:
  assumes "np_le x (Fin 0)"
  shows "np_le (Fin 0) (np_exp x)" and "np_le (np_exp x) (Fin 1)"
  using assms by (cases x; simp)+

lemma svf_constants:
  "1 \<le> f64_round 3.354688" "1 \<le> f64_round 1.998767" "1 / 8 \<le> f64_round 0.20286"
  "1 \<le> f64_round 5.951"
proof -
  have e: "(2::real) powr of_int (- 3) = 1 / 8"
    by (simp add: powr_minus_divide)
  show "1 \<le> f64_round 3.354688" "1 \<le> f64_round 1.998767" "1 \<le> f64_round 5.951"
    using f64_round_ge_pow2 [of 0 "3.354688"] f64_round_ge_pow2 [of 0 "1.998767"]
      f64_round_ge_pow2 [of 0 "5.951"]
    by simp_all
  have "2 powr of_int (- 3) \<le> f64_round 0.20286"
    by (rule f64_round_ge_pow2) (simp_all only: e, simp_all)
  then show "1 / 8 \<le> f64_round 0.20286"
    by (simp only: e)
qed

lemma slope_factor_unit:
  assumes "0 < \<mu>" "0 < a" "0 < b" "0 < c"
  obtains A where
    "to_f64 (Fin 1 - to_f64 (Fin 1 / to_f64 (np_power
       (to_f64 (Fin 1 + to_f64 (Fin a * to_f64 (np_power (Fin \<mu>) b)))) c))) = Fin A"
    "0 \<le> A" "A \<le> 1"
proof -
  let ?t1 = "to_f64 (np_power (Fin \<mu>) b)"
  let ?t3 = "to_f64 (Fin 1 + to_f64 (Fin a * ?t1))"
  let ?t5 = "to_f64 (Fin 1 / to_f64 (np_power ?t3 c))"
  have "np_le (Fin 0) (np_power (Fin \<mu>) b)"
    using assms(1) by simp
  then have t1: "np_le (Fin 0) ?t1" by (rule to_f64_nonneg)
  have t2: "np_le (Fin 0) (to_f64 (Fin a * ?t1))"
    by (rule to_f64_nonneg [OF times_pos_nonneg [OF assms(2) t1]])
  have t3: "np_le (Fin 1) ?t3"
    by (rule to_f64_ge_one [OF one_plus_nonneg [OF t2]])
  have t4: "np_le (Fin 1) (to_f64 (np_power ?t3 c))"
    by (rule to_f64_ge_one [OF np_power_ge_one [OF assms(4) t3]])
  have t5: "np_le (Fin 0) ?t5" "np_le ?t5 (Fin 1)"
    by (rule to_f64_nonneg [OF one_over_ge_one(1) [OF t4]],
        rule to_f64_le_one [OF one_over_ge_one(2) [OF t4]])
  have "np_le (Fin 0) (to_f64 (Fin 1 - ?t5))" "np_le (to_f64 (Fin 1 - ?t5)) (Fin 1)"
    by (rule to_f64_nonneg [OF one_minus_unit(1) [OF t5]],
        rule to_f64_le_one [OF one_minus_unit(2) [OF t5]])
  then show ?thesis
    by (rule np_le_unit) (rule that)
qed

lemma width_factor_antitone:
  assumes "0 < L" "0 < \<xi>1" "\<xi>1 \<le> \<xi>2" "0 < d"
  obtains E1 E2 where
    "to_f64 (np_exp (to_f64 (Fin (- d) * to_f64 (np_power (to_f64 (Fin L / Fin \<xi>1)) (- 2)))))
     = Fin E1"
    "to_f64 (np_exp (to_f64 (Fin (- d) * to_f64 (np_power (to_f64 (Fin L / Fin \<xi>2)) (- 2)))))
     = Fin E2"
    "0 \<le> E2" "E2 \<le> E1" "E1 \<le> 1"
proof -
  let ?q = "\<lambda>\<xi>. to_f64 (Fin L / Fin \<xi>)"
  let ?s = "\<lambda>\<xi>. to_f64 (np_power (?q \<xi>) (- 2))"
  let ?m = "\<lambda>\<xi>. to_f64 (Fin (- d) * ?s \<xi>)"
  let ?E = "\<lambda>\<xi>. to_f64 (np_exp (?m \<xi>))"
  have x2: "0 < \<xi>2" using assms by simp
  have q0: "np_le (Fin 0) (Fin L / Fin \<xi>2)" "np_le (Fin 0) (Fin L / Fin \<xi>1)"
    using assms x2 by simp_all
  have q: "np_le (Fin 0) (?q \<xi>2)" "np_le (?q \<xi>2) (?q \<xi>1)" "np_le (Fin 0) (?q \<xi>1)"
    by (rule to_f64_nonneg [OF q0(1)], rule to_f64_mono [OF ratio_antitone(2) [OF assms(1-3)]],
        rule to_f64_nonneg [OF q0(2)])
  have s: "np_le (Fin 0) (?s \<xi>1)" "np_le (?s \<xi>1) (?s \<xi>2)"
    by (rule to_f64_nonneg [OF inverse_square_antitone(1) [OF q(1,2)]],
        rule to_f64_mono [OF inverse_square_antitone(2) [OF q(1,2)]])
  have m: "np_le (?m \<xi>2) (?m \<xi>1)" "np_le (?m \<xi>2) (Fin 0)"
    by (rule to_f64_mono [OF times_neg_antitone(2) [OF assms(4) s]],
        rule to_f64_nonpos [OF times_neg_antitone(1) [OF assms(4) s]])
  have "np_le (?s \<xi>1) (?s \<xi>1)"
    using s(1) by (cases "?s \<xi>1") simp_all
  then have m1: "np_le (?m \<xi>1) (Fin 0)"
    by (rule to_f64_nonpos [OF times_neg_antitone(1) [OF assms(4) s(1)]])
  have E: "np_le (?E \<xi>2) (?E \<xi>1)"
    by (rule to_f64_mono [OF np_exp_mono [OF m(1)]])
  have E1: "np_le (Fin 0) (?E \<xi>1)" "np_le (?E \<xi>1) (Fin 1)"
    by (rule to_f64_nonneg [OF np_exp_unit(1) [OF m1]],
        rule to_f64_le_one [OF np_exp_unit(2) [OF m1]])
  have E2: "np_le (Fin 0) (?E \<xi>2)" "np_le (?E \<xi>2) (Fin 1)"
    by (rule to_f64_nonneg [OF np_exp_unit(1) [OF m(2)]],
        rule to_f64_le_one [OF np_exp_unit(2) [OF m(2)]])
  obtain e1 where e1: "?E \<xi>1 = Fin e1" "0 \<le> e1" "e1 \<le> 1"
    using E1 by (rule np_le_unit)
  obtain e2 where e2: "?E \<xi>2 = Fin e2" "0 \<le> e2" "e2 \<le> 1"
    using E2 by (rule np_le_unit)
  have "e2 \<le> e1" using E unfolding e1(1) e2(1) by simp
  then show ?thesis
    using e1 e2 by (intro that [of e1 e2])
qed

lemma unit_product_rounded:
  assumes "0 \<le> A" "A \<le> 1" "0 \<le> E" "E \<le> 1"
  obtains f where "to_f64 (Fin 1 - to_f64 (Fin A * Fin E)) = Fin f" "0 \<le> f" "f \<le> 1"
    "f = f64_round (1 - f64_round (A * E))"
proof -
  have p: "0 \<le> A * E" "A * E \<le> 1"
    using assms by (simp_all add: mult_le_one)
  have "np_le (Fin 0) (to_f64 (Fin A * Fin E))" "np_le (to_f64 (Fin A * Fin E)) (Fin 1)"
    using p by (intro to_f64_nonneg, simp, intro to_f64_le_one, simp)
  then obtain r where r: "to_f64 (Fin A * Fin E) = Fin r" "0 \<le> r" "r \<le> 1"
    by (rule np_le_unit)
  have rr: "r = f64_round (A * E)"
    using r(1) by (cases "A * E" rule: f64_cases) simp_all
  have "np_le (Fin 0) (to_f64 (Fin 1 - Fin r))" "np_le (to_f64 (Fin 1 - Fin r)) (Fin 1)"
    using r(2,3) by (intro to_f64_nonneg, simp add: Fin_minus, intro to_f64_le_one,
        simp add: Fin_minus)
  then obtain f where f: "to_f64 (Fin 1 - Fin r) = Fin f" "0 \<le> f" "f \<le> 1"
    by (rule np_le_unit)
  have "f = f64_round (1 - r)"
    using f(1) by (cases "1 - r" rule: f64_cases) (simp_all add: Fin_minus)
  then show ?thesis
    using f r rr by (intro that [of f]) simp_all
qed

section \<open>Where the sky view factor rounds to zero\<close>

lemma f64_overflow_pow2: "k \<le> 1023 \<Longrightarrow> 2 powr of_int k < f64_overflow"
proof -
  assume "k \<le> 1023"
  then have "(2::real) powr of_int k < 2 powr of_int 1024"
    by (intro powr_less_mono) simp_all
  also have "(2::real) powr of_int 1024 = 2 ^ nat 1024"
    by (simp only: pow2_int of_int_power of_int_numeral) simp
  finally show ?thesis by (simp add: f64_overflow_def)
qed

lemma f64_between:
  assumes "2 powr of_int j \<le> x" "x \<le> 2 powr of_int k" "- 1022 \<le> j" "k \<le> 1023"
  obtains r where "f64 x = Fin r" "2 powr of_int j \<le> r" "r \<le> 2 powr of_int k"
proof -
  have "(2::real) powr of_int j \<le> 2 powr of_int k"
    using assms(1,2) by (rule order_trans)
  then have jk: "j \<le> k" by simp
  have lo: "2 powr of_int j \<le> f64_round x"
    by (rule f64_round_ge_pow2 [OF assms(1,3)])
  have hi: "f64_round x \<le> 2 powr of_int k"
    using jk assms(3) by (intro f64_round_le_pow2 [OF assms(2)]) simp
  have "f64_round x < f64_overflow"
    using hi f64_overflow_pow2 [OF assms(4)] by (rule le_less_trans)
  moreover have "0 < f64_round x"
    using lo by (rule less_le_trans [OF pow2_pos])
  moreover have "0 < f64_overflow"
    using f64_overflow_gt by simp
  ultimately have "f64 x = Fin (f64_round x)"
    by (simp add: f64_def)
  then show ?thesis
    using lo hi by (rule that)
qed

lemma f64_minus: "f64 (- x) = - f64 x"
  using f64_overflow_gt by (auto simp: f64_def f64_round_minus)

lemma f64_near_one:
  assumes "1 - 2 powr (- 54) < y" "y \<le> 1"
  shows "f64 y = Fin 1"
proof (cases "y = 1")
  case True
  then show ?thesis using to_f64_one by simp
next
  case False
  then have y1: "y < 1" using assms(2) by simp
  have small: "(2::real) powr (- 54) \<le> 1 / 2"
    using powr_mono [of "- 54" "- 1" "2::real"] by (simp add: powr_minus_divide)
  then have half: "1 / 2 \<le> y" using assms(1) by simp
  then have y: "0 < y" by simp
  have "2 powr of_int (- 1) \<le> y" "y < 2 powr (of_int (- 1) + 1)"
    using half y1 by (simp_all add: powr_minus_divide)
  then have "\<lfloor>log 2 y\<rfloor> = - 1" by (rule floor_log2_unique)
  then have u: "f64_ulp y = 2 powr (- 53)"
    using y by (simp add: f64_ulp_def f64_exponent_def)
  have p: "(2::real) powr (- 53) * 2 ^ 53 = 1" "(2::real) powr (- 54) * 2 ^ 53 = 1 / 2"
    by (simp_all add: powr_minus_divide)
  have q: "y / 2 powr (- 53) = y * 2 ^ 53"
    by (simp add: powr_minus_divide)
  have "(1 - 2 powr (- 54)) * 2 ^ 53 < y * 2 ^ 53" "y * 2 ^ 53 < 1 * 2 ^ 53"
    using assms(1) y1 by (simp_all del: power_numeral)
  then have "of_int (2 ^ 53) - 1 / 2 < y * 2 ^ 53" "y * 2 ^ 53 < of_int (2 ^ 53) + 1 / 2"
    using p(2) by (simp_all add: algebra_simps)
  then have "round_half_even (y * 2 ^ 53) = 2 ^ 53"
    by (rule round_half_even_near)
  then have "f64_round y = of_int (2 ^ 53) * 2 powr (- 53)"
    unfolding f64_round_pos [OF y] u q by simp
  then have "f64_round y = 1"
    using p(1) by (simp add: mult.commute)
  then show ?thesis
    using f64_overflow_gt by (simp add: f64_def)
qed

lemma powr_between:
  fixes x e p q :: real
  assumes "2 powr of_int j \<le> x" "x \<le> 2 powr of_int k" "0 \<le> j"
    and "p \<le> e" "e \<le> q" "0 \<le> p"
    and "of_int j' \<le> of_int j * p" "of_int k * q \<le> of_int k'"
  shows "2 powr of_int j' \<le> x powr e" and "x powr e \<le> 2 powr of_int k'"
proof -
  have e: "0 \<le> e" using assms(4,6) by simp
  have x: "0 < x" using assms(1) by (rule less_le_trans [OF pow2_pos])
  have "(2::real) powr of_int j \<le> 2 powr of_int k"
    using assms(1,2) by (rule order_trans)
  then have k: "0 \<le> k" using assms(3) by simp
  have "(2::real) powr of_int j' \<le> 2 powr (of_int j * p)"
    using assms(7) by (intro powr_mono) simp_all
  also have "\<dots> \<le> 2 powr (of_int j * e)"
    using assms(3,4) by (intro powr_mono mult_left_mono) simp_all
  also have "\<dots> = (2 powr of_int j) powr e"
    by (simp only: powr_powr)
  also have "\<dots> \<le> x powr e"
    using assms(1) e by (intro powr_mono2) simp_all
  finally show "2 powr of_int j' \<le> x powr e" .
  have "x powr e \<le> (2 powr of_int k) powr e"
    using assms(2) e x by (intro powr_mono2) simp_all
  also have "\<dots> = 2 powr (of_int k * e)"
    by (simp only: powr_powr)
  also have "\<dots> \<le> 2 powr (of_int k * q)"
    using assms(5) k by (intro powr_mono mult_left_mono) simp_all
  also have "\<dots> \<le> 2 powr of_int k'"
    using assms(8) by (intro powr_mono) simp_all
  finally show "x powr e \<le> 2 powr of_int k'" .
qed

lemma times_between:
  fixes a r :: real
  assumes "2 powr of_int j1 \<le> a" "a \<le> 2 powr of_int k1"
    and "2 powr of_int j2 \<le> r" "r \<le> 2 powr of_int k2"
    and "j = j1 + j2" "k = k1 + k2"
  shows "2 powr of_int j \<le> a * r" and "a * r \<le> 2 powr of_int k"
proof -
  have a: "0 < a" using assms(1) by (rule less_le_trans [OF pow2_pos])
  have r: "0 < r" using assms(3) by (rule less_le_trans [OF pow2_pos])
  have "2 powr of_int j = 2 powr of_int j1 * (2::real) powr of_int j2"
    by (simp add: assms(5) powr_add)
  also have "\<dots> \<le> a * r"
    using assms(1,3) a r by (intro mult_mono) simp_all
  finally show "2 powr of_int j \<le> a * r" .
  have "a * r \<le> 2 powr of_int k1 * 2 powr of_int k2"
    using assms(2,4) a r by (intro mult_mono) simp_all
  also have "\<dots> = 2 powr of_int k"
    by (simp add: assms(6) powr_add)
  finally show "a * r \<le> 2 powr of_int k" .
qed

lemma one_plus_between:
  fixes r :: real
  assumes "2 powr of_int j \<le> r" "r \<le> 2 powr of_int k" "0 \<le> k"
  shows "2 powr of_int j \<le> 1 + r" and "1 + r \<le> 2 powr of_int (k + 1)"
proof -
  show "2 powr of_int j \<le> 1 + r" using assms(1) by simp
  have "(2::real) powr of_int 0 \<le> 2 powr of_int k"
    using assms(3) by (intro powr_mono) simp_all
  then have "1 + r \<le> 2 powr of_int k + 2 powr of_int k"
    using assms(2) by simp
  also have "\<dots> = 2 powr of_int (k + 1)"
    by (simp add: powr_add)
  finally show "1 + r \<le> 2 powr of_int (k + 1)" .
qed

lemma inverse_between:
  fixes r :: real
  assumes "2 powr of_int j \<le> r" "r \<le> 2 powr of_int k"
  shows "2 powr of_int (- k) \<le> 1 / r" and "1 / r \<le> 2 powr of_int (- j)"
proof -
  have r: "0 < r" using assms(1) by (rule less_le_trans [OF pow2_pos])
  have "1 / 2 powr of_int k \<le> 1 / r"
    using assms(2) r by (intro divide_left_mono) simp_all
  then show "2 powr of_int (- k) \<le> 1 / r"
    by (simp add: powr_minus_divide)
  have "1 / r \<le> 1 / 2 powr of_int j"
    using assms(1) r by (intro divide_left_mono) simp_all
  then show "1 / r \<le> 2 powr of_int (- j)"
    by (simp add: powr_minus_divide)
qed

lemma inverse_square_between:
  fixes r :: real
  assumes "2 powr of_int j \<le> r" "r \<le> 2 powr of_int k"
  shows "2 powr of_int (- 2 * k) \<le> r powr (- 2)" and "r powr (- 2) \<le> 2 powr of_int (- 2 * j)"
proof -
  have r: "0 < r" using assms(1) by (rule less_le_trans [OF pow2_pos])
  have "(2 powr of_int k) powr (- 2) \<le> r powr (- 2)"
    using assms(2) r by (intro powr_mono2') simp_all
  then show "2 powr of_int (- 2 * k) \<le> r powr (- 2)"
    by (simp add: powr_powr mult.commute)
  have "r powr (- 2) \<le> (2 powr of_int j) powr (- 2)"
    using assms(1) by (intro powr_mono2') simp_all
  then show "r powr (- 2) \<le> 2 powr of_int (- 2 * j)"
    by (simp add: powr_powr mult.commute)
qed

lemma svf_constant_bounds:
  "2 powr of_int 1 \<le> f64_round 3.354688" "f64_round 3.354688 \<le> 2 powr of_int 2"
  "279 / 140 \<le> f64_round 1.998767" "f64_round 1.998767 \<le> 2"
  "1 / 5 \<le> f64_round 0.20286" "f64_round 0.20286 \<le> 1 / 4"
  "2 powr of_int 2 \<le> f64_round 5.951" "f64_round 5.951 \<le> 2 powr of_int 3"
proof -
  show "2 powr of_int 1 \<le> f64_round 3.354688" "2 powr of_int 2 \<le> f64_round 5.951"
    by (rule f64_round_ge_pow2; simp)+
  show "f64_round 3.354688 \<le> 2 powr of_int 2" "f64_round 5.951 \<le> 2 powr of_int 3"
    by (rule f64_round_le_pow2; simp)+
  have "f64_round 1.998767 \<le> 2 powr of_int 1"
    by (rule f64_round_le_pow2) simp_all
  then show "f64_round 1.998767 \<le> 2" by simp
  have "f64_round 0.20286 \<le> 2 powr of_int (- 2)"
    by (rule f64_round_le_pow2) (simp_all add: powr_minus_divide)
  then show "f64_round 0.20286 \<le> 1 / 4" by (simp add: powr_minus_divide)
  have "\<bar>f64_round 1.998767 - 1.998767\<bar> \<le> 2 powr (of_int 0 - 53)"
    by (rule f64_round_error) simp_all
  moreover have "(2::real) powr (of_int 0 - 53) \<le> 1 / 1000"
    by (simp add: powr_minus_divide)
  ultimately show "279 / 140 \<le> f64_round 1.998767"
    by (simp add: abs_le_iff)
  have "\<bar>f64_round 0.20286 - 0.20286\<bar> \<le> 2 powr (of_int (- 3) - 53)"
    by (rule f64_round_error) (simp_all add: powr_minus_divide)
  moreover have "(2::real) powr (of_int (- 3) - 53) \<le> 1 / 1000"
    by (simp add: powr_minus_divide)
  ultimately show "1 / 5 \<le> f64_round 0.20286"
    by (simp add: abs_le_iff)
qed

lemma f64_round_int:
  assumes "0 < n" "n < 2 ^ 53"
  shows "f64_round (of_int n) = of_int n"
proof -
  let ?x = "of_int n :: real"
  let ?l = "\<lfloor>log 2 ?x\<rfloor>"
  have x: "0 < ?x" using assms(1) by simp
  have "1 \<le> ?x" using assms(1) by simp
  then have "0 \<le> log 2 ?x" by simp
  then have l0: "0 \<le> ?l" by simp
  have "?x < 2 ^ 53" using assms(2) by (metis of_int_less_iff of_int_numeral of_int_power)
  then have "?x < 2 powr of_int 53" by (simp only: pow2_int) simp
  then have "2 powr of_int ?l < (2::real) powr of_int 53"
    by (rule le_less_trans [OF floor_log2_bounds(1) [OF x]])
  then have "(of_int ?l :: real) < of_int 53"
    by (rule powr_less_cancel) simp
  then have l1: "?l \<le> 52" by simp
  define m where "m = nat (52 - ?l)"
  have e: "f64_exponent ?x = ?l"
    unfolding f64_exponent_def abs_of_pos [OF x]
    by (rule max_absorb2) (use l0 in linarith)
  have "of_int ?l - 52 = - real m"
    using l1 by (simp add: m_def)
  then have u: "f64_ulp ?x = 1 / 2 ^ m"
    by (simp add: f64_ulp_def e powr_minus_divide powr_realpow)
  have "?x / f64_ulp ?x = of_int (n * 2 ^ m)"
    by (simp add: u)
  then have "round_half_even (?x / f64_ulp ?x) = n * 2 ^ m"
    by (simp only: round_half_even_of_int)
  then show ?thesis
    unfolding f64_round_pos [OF x] by (simp add: u)
qed

section \<open>Claim on the bounds of the sky view factor\<close>

text \<open>
  Over exact reals, for fixed \<open>\<mu> > 0\<close> and \<open>L > 0\<close>, the sky view factor does not
  decrease when \<open>\<xi> > 0\<close> grows, and it lies strictly above 0 and not above 1.
\<close>

lemma sky_view_factor_exact_monotone_bounded:
  assumes "0 < \<mu>" "0 < L" "0 < \<xi>1" "\<xi>1 \<le> \<xi>2"
  shows "\<exists>f1 f2. compute_sky_view_factor (Fin \<mu>) (Fin \<xi>1) L = Fin f1
               \<and> compute_sky_view_factor (Fin \<mu>) (Fin \<xi>2) L = Fin f2
               \<and> f1 \<le> f2 \<and> 0 < f1 \<and> f1 \<le> 1 \<and> 0 < f2 \<and> f2 \<le> 1"
proof -
  have x2: "0 < \<xi>2" using assms by simp
  have mu: "0 \<le> \<mu>" using assms by simp
  show ?thesis
  proof (intro exI conjI)
    show "compute_sky_view_factor (Fin \<mu>) (Fin \<xi>1) L = Fin (spec_sky_view_factor \<mu> \<xi>1 L)"
      by (rule sky_view_factor_finite [OF mu assms(3) assms(2)])
    show "compute_sky_view_factor (Fin \<mu>) (Fin \<xi>2) L = Fin (spec_sky_view_factor \<mu> \<xi>2 L)"
      by (rule sky_view_factor_finite [OF mu x2 assms(2)])
    show "spec_sky_view_factor \<mu> \<xi>1 L \<le> spec_sky_view_factor \<mu> \<xi>2 L"
      by (rule spec_sky_view_factor_mono [OF assms])
    show "0 < spec_sky_view_factor \<mu> \<xi>1 L"
      by (rule spec_sky_view_factor_bounds(1) [OF assms(1) assms(3) assms(2)])
    show "spec_sky_view_factor \<mu> \<xi>1 L \<le> 1"
      by (rule less_imp_le [OF spec_sky_view_factor_bounds(2) [OF assms(1) assms(3) assms(2)]])
    show "0 < spec_sky_view_factor \<mu> \<xi>2 L"
      by (rule spec_sky_view_factor_bounds(1) [OF assms(1) x2 assms(2)])
    show "spec_sky_view_factor \<mu> \<xi>2 L \<le> 1"
      by (rule less_imp_le [OF spec_sky_view_factor_bounds(2) [OF assms(1) x2 assms(2)]])
  qed
qed

text \<open>
  Claim C7, as amended. In float64 arithmetic, for fixed \<open>\<mu> > 0\<close> and \<open>L > 0\<close>,
  \<open>compute_sky_view_factor\<close> returns a finite number for every \<open>\<xi> > 0\<close>, does not
  decrease when \<open>\<xi>\<close> grows, and its value lies in the closed interval \<open>[0, 1]\<close>.
\<close>

theorem C7_sky_view_factor_monotone_in_unit_interval:
  assumes "0 < \<mu>" "0 < L" "0 < \<xi>1" "\<xi>1 \<le> \<xi>2"
  shows "\<exists>f1 f2. compute_sky_view_factor_f64 (Fin \<mu>) (Fin \<xi>1) L = Fin f1
               \<and> compute_sky_view_factor_f64 (Fin \<mu>) (Fin \<xi>2) L = Fin f2
               \<and> f1 \<le> f2 \<and> 0 \<le> f1 \<and> f1 \<le> 1 \<and> 0 \<le> f2 \<and> f2 \<le> 1"
proof -
  let ?a = "f64_round 3.354688" and ?b = "f64_round 1.998767" and ?c = "f64_round 0.20286"
    and ?d = "f64_round 5.951"
  have pos: "0 < ?a" "0 < ?b" "0 < ?c" "0 < ?d"
    using svf_constants by simp_all
  obtain A where A:
    "to_f64 (Fin 1 - to_f64 (Fin 1 / to_f64 (np_power
       (to_f64 (Fin 1 + to_f64 (Fin ?a * to_f64 (np_power (Fin \<mu>) ?b)))) ?c))) = Fin A"
    "0 \<le> A" "A \<le> 1"
    by (rule slope_factor_unit [OF assms(1) pos(1-3)])
  obtain E1 E2 where E:
    "to_f64 (np_exp (to_f64 (Fin (- ?d) * to_f64 (np_power (to_f64 (Fin L / Fin \<xi>1)) (- 2)))))
     = Fin E1"
    "to_f64 (np_exp (to_f64 (Fin (- ?d) * to_f64 (np_power (to_f64 (Fin L / Fin \<xi>2)) (- 2)))))
     = Fin E2"
    "0 \<le> E2" "E2 \<le> E1" "E1 \<le> 1"
    by (rule width_factor_antitone [OF assms(2-4) pos(4)])
  have E1: "0 \<le> E1" and E2: "E2 \<le> 1" using E(3-5) by simp_all
  obtain f1 where f1: "to_f64 (Fin 1 - to_f64 (Fin A * Fin E1)) = Fin f1" "0 \<le> f1" "f1 \<le> 1"
    "f1 = f64_round (1 - f64_round (A * E1))"
    by (rule unit_product_rounded [OF A(2,3) E1 E(5)])
  obtain f2 where f2: "to_f64 (Fin 1 - to_f64 (Fin A * Fin E2)) = Fin f2" "0 \<le> f2" "f2 \<le> 1"
    "f2 = f64_round (1 - f64_round (A * E2))"
    by (rule unit_product_rounded [OF A(2,3) E(3) E2])
  have "A * E2 \<le> A * E1"
    using E(4) A(2) by (rule mult_left_mono)
  then have "f64_round (A * E2) \<le> f64_round (A * E1)"
    by (rule f64_round_mono)
  then have "1 - f64_round (A * E1) \<le> 1 - f64_round (A * E2)"
    by simp
  then have le: "f1 \<le> f2"
    unfolding f1(4) f2(4) by (rule f64_round_mono)
  have r1: "compute_sky_view_factor_f64 (Fin \<mu>) (Fin \<xi>1) L = Fin f1"
    unfolding compute_sky_view_factor_f64_def Let_def A(1) E(1) by (rule f1(1))
  have r2: "compute_sky_view_factor_f64 (Fin \<mu>) (Fin \<xi>2) L = Fin f2"
    unfolding compute_sky_view_factor_f64_def Let_def A(1) E(2) by (rule f2(1))
  show ?thesis
    using r1 r2 le f1(2,3) f2(2,3) by blast
qed

theorem C7_sky_view_factor_monotone_in_unit_interval_witness:
  "(0::real) < 1/2 \<and> (0::real) < 2500 \<and> (0::real) < 100 \<and> (100::real) \<le> 200 \<and>
   (\<exists>f1 f2. compute_sky_view_factor_f64 (Fin (1/2)) (Fin 100) 2500 = Fin f1
               \<and> compute_sky_view_factor_f64 (Fin (1/2)) (Fin 200) 2500 = Fin f2
               \<and> f1 \<le> f2 \<and> 0 \<le> f1 \<and> f1 \<le> 1 \<and> 0 \<le> f2 \<and> f2 \<le> 1)"
  using C7_sky_view_factor_monotone_in_unit_interval [of "1/2" 2500 100 200] by simp

text \<open>
  The claim as stated fails at the lower bound. For \<open>\<mu> = 2^140\<close>, \<open>\<xi> = 2^(-20)\<close> and
  \<open>L = 2500\<close>, three float64 numbers, the quotient \<open>1 / (1 + a \<mu>^b)^c\<close> is below
  \<open>2^(-56)\<close> and is lost when it is subtracted from 1, the exponential of a number
  between \<open>-2^(-59)\<close> and 0 rounds to 1, and the function returns 0, which is outside
  \<open>(0, 1]\<close>. Over exact reals the value at this input is not 0.
\<close>

theorem C7_sky_view_factor_zero_counterexample:
  "compute_sky_view_factor_f64 (Fin (2 ^ 140)) (Fin (1 / 2 ^ 20)) 2500 = Fin 0
   \<and> f64_round (2 ^ 140) = 2 ^ 140 \<and> f64_round (1 / 2 ^ 20) = 1 / 2 ^ 20
   \<and> f64_round 2500 = 2500
   \<and> compute_sky_view_factor (Fin (2 ^ 140)) (Fin (1 / 2 ^ 20)) 2500 \<noteq> Fin 0"
proof (intro conjI)
  have p: "(0::real) < 2 ^ 140" "(0::real) < 1 / 2 ^ 20" "(0::real) < 2500"
    by simp_all
  have "compute_sky_view_factor (Fin (2 ^ 140)) (Fin (1 / 2 ^ 20)) 2500
        = Fin (spec_sky_view_factor (2 ^ 140) (1 / 2 ^ 20) 2500)"
    by (rule sky_view_factor_finite [OF less_imp_le [OF p(1)] p(2,3)])
  moreover have "0 < spec_sky_view_factor (2 ^ 140) (1 / 2 ^ 20) 2500"
    by (rule spec_sky_view_factor_bounds(1) [OF p])
  ultimately show "compute_sky_view_factor (Fin (2 ^ 140)) (Fin (1 / 2 ^ 20)) 2500 \<noteq> Fin 0"
    by simp
  let ?a = "f64_round 3.354688" and ?b = "f64_round 1.998767" and ?c = "f64_round 0.20286"
    and ?d = "f64_round 5.951"
  note cb = svf_constant_bounds
  have mu: "(2::real) ^ 140 = 2 powr of_int 140"
    by (simp only: pow2_int) simp
  have xi: "1 / (2::real) ^ 20 = 2 powr of_int (- 20)"
    by (simp add: powr_minus_divide)
  show "f64_round (2 ^ 140) = 2 ^ 140"
    unfolding mu by (rule f64_round_pow2) simp
  show "f64_round (1 / 2 ^ 20) = 1 / 2 ^ 20"
    unfolding xi by (rule f64_round_pow2) simp
  show "f64_round 2500 = 2500"
    using f64_round_int [of 2500] by simp
  have b0: "?b \<noteq> 0" and c0: "?c \<noteq> 0"
    using cb(3,5) by simp_all
  note pb = powr_between [where j = 140 and k = 140 and j' = 279 and k' = 280,
      OF order_refl order_refl _ cb(3,4)]
  have "2 powr of_int 279 \<le> (2 ^ 140) powr ?b"
    unfolding mu by (rule pb(1)) simp_all
  moreover have "(2 ^ 140) powr ?b \<le> 2 powr of_int 280"
    unfolding mu by (rule pb(2)) simp_all
  ultimately obtain r1 where r1: "f64 ((2 ^ 140) powr ?b) = Fin r1"
    "2 powr of_int 279 \<le> r1" "r1 \<le> 2 powr of_int 280"
    by (rule f64_between) simp_all
  have s1: "to_f64 (np_power (Fin (2 ^ 140)) ?b) = Fin r1"
    using b0 r1(1) by simp
  note tb = times_between [where j = 280 and k = 282, OF cb(1,2) r1(2,3)]
  have "2 powr of_int 280 \<le> ?a * r1"
    by (rule tb(1)) simp_all
  moreover have "?a * r1 \<le> 2 powr of_int 282"
    by (rule tb(2)) simp_all
  ultimately obtain r2 where r2: "f64 (?a * r1) = Fin r2"
    "2 powr of_int 280 \<le> r2" "r2 \<le> 2 powr of_int 282"
    by (rule f64_between) simp_all
  have s2: "to_f64 (Fin ?a * Fin r1) = Fin r2"
    using r2(1) by simp
  have "2 powr of_int 280 \<le> 1 + r2"
    by (rule one_plus_between(1) [OF r2(2,3)]) simp_all
  moreover have "1 + r2 \<le> 2 powr of_int (282 + 1)"
    by (rule one_plus_between(2) [OF r2(2,3)]) simp_all
  ultimately obtain r3 where r3: "f64 (1 + r2) = Fin r3"
    "2 powr of_int 280 \<le> r3" "r3 \<le> 2 powr of_int (282 + 1)"
    by (rule f64_between) simp_all
  have s3: "to_f64 (Fin 1 + Fin r2) = Fin r3"
    using r3(1) by simp
  have r3pos: "0 < r3" using r3(2) by (rule less_le_trans [OF pow2_pos])
  note pc = powr_between [where j' = 56 and k' = 71, OF r3(2,3) _ cb(5,6)]
  have "2 powr of_int 56 \<le> r3 powr ?c"
    by (rule pc(1)) simp_all
  moreover have "r3 powr ?c \<le> 2 powr of_int 71"
    by (rule pc(2)) simp_all
  ultimately obtain r4 where r4: "f64 (r3 powr ?c) = Fin r4"
    "2 powr of_int 56 \<le> r4" "r4 \<le> 2 powr of_int 71"
    by (rule f64_between) simp_all
  have s4: "to_f64 (np_power (Fin r3) ?c) = Fin r4"
    using c0 r3pos r4(1) by simp
  have r4pos: "0 < r4" using r4(2) by (rule less_le_trans [OF pow2_pos])
  have "2 powr of_int (- 71) \<le> 1 / r4" "1 / r4 \<le> 2 powr of_int (- 56)"
    by (rule inverse_between(1) [OF r4(2,3)], rule inverse_between(2) [OF r4(2,3)])
  then obtain r5 where r5: "f64 (1 / r4) = Fin r5"
    "2 powr of_int (- 71) \<le> r5" "r5 \<le> 2 powr of_int (- 56)"
    by (rule f64_between) simp_all
  have s5: "to_f64 (Fin 1 / Fin r4) = Fin r5"
    using r4pos r5(1) by simp
  have r5pos: "0 < r5" using r5(2) by (rule less_le_trans [OF pow2_pos])
  have "(2::real) powr of_int (- 56) < 2 powr (- 54)"
    by (intro powr_less_mono) simp_all
  then have "r5 < 2 powr (- 54)"
    by (rule le_less_trans [OF r5(3)])
  then have "f64 (1 - r5) = Fin 1"
    using r5pos by (intro f64_near_one) simp_all
  then have s6: "to_f64 (Fin 1 - Fin r5) = Fin 1"
    by (simp add: Fin_minus)
  have "2 powr of_int 31 \<le> 2500 / (1 / (2::real) ^ 20)"
    "2500 / (1 / (2::real) ^ 20) \<le> 2 powr of_int 32"
    by simp_all
  then obtain r7 where r7: "f64 (2500 / (1 / 2 ^ 20)) = Fin r7"
    "2 powr of_int 31 \<le> r7" "r7 \<le> 2 powr of_int 32"
    by (rule f64_between) simp_all
  have s7: "to_f64 (Fin 2500 / Fin (1 / 2 ^ 20)) = Fin r7"
    using r7(1) by simp
  have r7pos: "0 < r7" using r7(2) by (rule less_le_trans [OF pow2_pos])
  have "2 powr of_int (- 2 * 32) \<le> r7 powr (- 2)" "r7 powr (- 2) \<le> 2 powr of_int (- 2 * 31)"
    by (rule inverse_square_between(1) [OF r7(2,3)], rule inverse_square_between(2) [OF r7(2,3)])
  then obtain r8 where r8: "f64 (r7 powr (- 2)) = Fin r8"
    "2 powr of_int (- 2 * 32) \<le> r8" "r8 \<le> 2 powr of_int (- 2 * 31)"
    by (rule f64_between) simp_all
  have s8: "to_f64 (np_power (Fin r7) (- 2)) = Fin r8"
    using r7pos r8(1) by simp
  note td = times_between [where j = "- 62" and k = "- 59", OF cb(7,8) r8(2,3)]
  have "2 powr of_int (- 62) \<le> ?d * r8"
    by (rule td(1)) simp_all
  moreover have "?d * r8 \<le> 2 powr of_int (- 59)"
    by (rule td(2)) simp_all
  ultimately obtain r9 where r9: "f64 (?d * r8) = Fin r9"
    "2 powr of_int (- 62) \<le> r9" "r9 \<le> 2 powr of_int (- 59)"
    by (rule f64_between) simp_all
  have "f64 (- (?d * r8)) = Fin (- r9)"
    unfolding f64_minus r9(1) by simp
  then have s9: "to_f64 (Fin (- ?d) * Fin r8) = Fin (- r9)"
    by simp
  have r9pos: "0 < r9" using r9(2) by (rule less_le_trans [OF pow2_pos])
  have "(2::real) powr of_int (- 59) < 2 powr (- 54)"
    by (intro powr_less_mono) simp_all
  then have "r9 < 2 powr (- 54)"
    by (rule le_less_trans [OF r9(3)])
  then have "1 - 2 powr (- 54) < 1 + - r9"
    by simp
  also have "1 + - r9 \<le> exp (- r9)"
    by (rule exp_ge_add_one_self)
  finally have "f64 (exp (- r9)) = Fin 1"
    using r9pos by (intro f64_near_one) simp_all
  then have s10: "to_f64 (np_exp (Fin (- r9))) = Fin 1"
    by simp
  have s11: "to_f64 (Fin 1 - to_f64 (Fin 1 * Fin 1)) = Fin 0"
    by (simp add: to_f64_one [simplified] to_f64_zero [simplified] Fin_minus)
  show "compute_sky_view_factor_f64 (Fin (2 ^ 140)) (Fin (1 / 2 ^ 20)) 2500 = Fin 0"
    unfolding compute_sky_view_factor_f64_def Let_def s1 s2 s3 s4 s5 s6 s7 s8 s9 s10
    by (rule s11)
qed

section \<open>The three kernels\<close>

lemma upt_3: "[0..<3] = [0, 1, 2]"
  by (simp add: upt_rec)

lemma full_at_kernel_1: "full_at a kernel_1 p q = at0 a (p - 1) (q - 1) - at0 a (p - 2) (q - 1)"
  by (simp add: full_at_def kernel_1_def upt_3)

lemma full_at_kernel_2: "full_at a kernel_2 p q = at0 a (p - 1) (q - 1) - at0 a (p - 1) (q - 2)"
  by (simp add: full_at_def kernel_2_def upt_3)

lemma full_at_laplacian:
  "full_at a laplacian_kernel p q =
     at0 a p (q - 1) + at0 a (p - 1) q - 4 * at0 a (p - 1) (q - 1) + at0 a (p - 1) (q - 2)
     + at0 a (p - 2) (q - 1)"
  by (simp add: full_at_def laplacian_kernel_def upt_3)

lemma kernel_shapes:
  "nrows kernel_1 = 3" "ncols kernel_1 = 3" "nrows kernel_2 = 3" "ncols kernel_2 = 3"
  "nrows laplacian_kernel = 3" "ncols laplacian_kernel = 3"
  by (simp_all add: nrows_def ncols_def kernel_1_def kernel_2_def laplacian_kernel_def)

lemma at0_inside:
  "rect h w a \<Longrightarrow> i < h \<Longrightarrow> j < w \<Longrightarrow> at0 a (int i) (int j) = a ! i ! j"
  by (simp add: at0_def rect_def)

lemma rect_row_length: "rect h w a \<Longrightarrow> i < h \<Longrightarrow> length (a ! i) = w"
  by (simp add: rect_def)

section \<open>Slices\<close>

lemma slice_index_minus_1: "slice_index n (- 1) = n - 1"
  unfolding slice_index_def by (cases n) simp_all

lemma slice_index_1: "slice_index n 1 = min n 1"
  by (simp add: slice_index_def)

lemma py_slice_from_1: "py_slice (Some 1, None) xs = drop (Suc 0) xs"
  by (simp add: py_slice_def slice_start_def slice_stop_def slice_index_1 min_def)

lemma py_slice_to_minus_1: "py_slice (None, Some (- 1)) xs = take (length xs - Suc 0) xs"
  by (simp add: py_slice_def slice_start_def slice_stop_def slice_index_minus_1)

lemma drop_1_map_upt: "drop (Suc 0) (map f [0..<n]) = map (\<lambda>i. f (Suc i)) [0..<n - Suc 0]"
  by (rule nth_equalityI) simp_all

lemma take_butlast_map_upt: "take (n - Suc 0) (map f [0..<n]) = map f [0..<n - Suc 0]"
  by (rule nth_equalityI) simp_all

lemma slice2_drop_first_row_last_col:
  "slice2 (Some 1, None) (None, Some (- 1)) (map (\<lambda>i. map (f i) [0..<w]) [0..<h]) =
   map (\<lambda>i. map (f (Suc i)) [0..<w - Suc 0]) [0..<h - Suc 0]"
  by (simp add: slice2_def py_slice_from_1 py_slice_to_minus_1 drop_1_map_upt
      take_butlast_map_upt comp_def)

lemma slice2_drop_last_row_first_col:
  "slice2 (None, Some (- 1)) (Some 1, None) (map (\<lambda>i. map (f i) [0..<w]) [0..<h]) =
   map (\<lambda>i. map (\<lambda>j. f i (Suc j)) [0..<w - Suc 0]) [0..<h - Suc 0]"
  by (simp add: slice2_def py_slice_from_1 py_slice_to_minus_1 drop_1_map_upt
      take_butlast_map_upt comp_def)

section \<open>The cropped difference arrays\<close>

lemma convolve2d_same_kernel_1:
  assumes "rect h w a"
  shows "convolve2d_same a kernel_1 =
     map (\<lambda>i. map (\<lambda>j. at0 a (int i) (int j) - at0 a (int i - 1) (int j)) [0..<w]) [0..<h]"
proof -
  have len: "length a = h" using assms by (simp add: rect_def)
  show ?thesis
    unfolding convolve2d_same_def full_at_kernel_1 kernel_shapes len
    by (rule map_cong) (simp_all add: rect_row_length [OF assms])
qed

lemma convolve2d_same_kernel_2:
  assumes "rect h w a"
  shows "convolve2d_same a kernel_2 =
     map (\<lambda>i. map (\<lambda>j. at0 a (int i) (int j) - at0 a (int i) (int j - 1)) [0..<w]) [0..<h]"
proof -
  have len: "length a = h" using assms by (simp add: rect_def)
  show ?thesis
    unfolding convolve2d_same_def full_at_kernel_2 kernel_shapes len
    by (rule map_cong) (simp_all add: rect_row_length [OF assms])
qed

lemma member_1_rect:
  assumes "rect h w a"
  shows "slice2 (Some 1, None) (None, Some (- 1)) (convolve2d_same a kernel_1) =
         map (\<lambda>i. map (\<lambda>j. a ! Suc i ! j - a ! i ! j) [0..<w - Suc 0]) [0..<h - Suc 0]"
proof -
  have "slice2 (Some 1, None) (None, Some (- 1)) (convolve2d_same a kernel_1) =
        map (\<lambda>i. map (\<lambda>j. at0 a (int (Suc i)) (int j) - at0 a (int (Suc i) - 1) (int j))
                      [0..<w - Suc 0]) [0..<h - Suc 0]"
    by (simp only: convolve2d_same_kernel_1 [OF assms] slice2_drop_first_row_last_col)
  also have "\<dots> = map (\<lambda>i. map (\<lambda>j. a ! Suc i ! j - a ! i ! j) [0..<w - Suc 0]) [0..<h - Suc 0]"
  proof (intro map_cong refl)
    fix i j assume "i \<in> set [0..<h - Suc 0]" "j \<in> set [0..<w - Suc 0]"
    then have i: "Suc i < h" "i < h" and j: "j < w" by auto
    have "int (Suc i) - 1 = int i" by simp
    then show "at0 a (int (Suc i)) (int j) - at0 a (int (Suc i) - 1) (int j)
               = a ! Suc i ! j - a ! i ! j"
      by (simp only: at0_inside [OF assms i(1) j] at0_inside [OF assms i(2) j])
  qed
  finally show ?thesis .
qed

lemma member_2_rect:
  assumes "rect h w a"
  shows "slice2 (None, Some (- 1)) (Some 1, None) (convolve2d_same a kernel_2) =
         map (\<lambda>i. map (\<lambda>j. a ! i ! Suc j - a ! i ! j) [0..<w - Suc 0]) [0..<h - Suc 0]"
proof -
  have "slice2 (None, Some (- 1)) (Some 1, None) (convolve2d_same a kernel_2) =
        map (\<lambda>i. map (\<lambda>j. at0 a (int i) (int (Suc j)) - at0 a (int i) (int (Suc j) - 1))
                      [0..<w - Suc 0]) [0..<h - Suc 0]"
    by (simp only: convolve2d_same_kernel_2 [OF assms] slice2_drop_last_row_first_col)
  also have "\<dots> = map (\<lambda>i. map (\<lambda>j. a ! i ! Suc j - a ! i ! j) [0..<w - Suc 0]) [0..<h - Suc 0]"
  proof (intro map_cong refl)
    fix i j assume "i \<in> set [0..<h - Suc 0]" "j \<in> set [0..<w - Suc 0]"
    then have i: "i < h" and j: "Suc j < w" "j < w" by auto
    have "int (Suc j) - 1 = int j" by simp
    then show "at0 a (int i) (int (Suc j)) - at0 a (int i) (int (Suc j) - 1)
               = a ! i ! Suc j - a ! i ! j"
      by (simp only: at0_inside [OF assms i j(1)] at0_inside [OF assms i j(2)])
  qed
  finally show ?thesis .
qed

lemma mean_squared_slope_rect:
  assumes "rect h w a"
  shows "compute_mean_squared_slope a delta_x =
         np_sqrt (np_mean (slope_squares h w a)) / Fin (delta_x * sqrt 2)"
  unfolding compute_mean_squared_slope_def Let_def member_1_rect [OF assms]
    member_2_rect [OF assms] slope_squares_def np_add_def np_square_def
  by (simp add: map2_map_map comp_def)

section \<open>Windows whose squared differences are all equal\<close>

lemma length_concat_grid:
  "length (concat (map (\<lambda>i. map (f i) [0..<m]) [0..<n])) = n * m"
  by (induction n) simp_all

lemma sum_list_concat_const:
  "sum_list (concat (map (\<lambda>i. map (\<lambda>j. c) [0..<m]) [0..<n])) = real (n * m) * (c::real)"
proof -
  have row: "sum_list (map (\<lambda>j. c) [0..<m]) = real m * c"
    by (induction m) (simp_all add: algebra_simps)
  show ?thesis
    by (induction n) (simp_all add: row algebra_simps)
qed

lemma np_mean_const_grid:
  assumes "0 < n" "0 < m"
  shows "np_mean (map (\<lambda>i. map (\<lambda>j. c) [0..<m]) [0..<n]) = Fin c"
proof -
  have nz: "real (n * m) \<noteq> 0" using assms by simp
  show ?thesis
    unfolding np_mean_def length_concat_grid sum_list_concat_const
    by (simp only: Fin_divide [OF nz] nonzero_mult_div_cancel_left [OF nz])
qed

lemma mean_squared_slope_const_squares:
  assumes r: "rect h w a" and h: "2 \<le> h" and w: "2 \<le> w" and dx: "0 < delta_x"
    and c: "0 \<le> c"
    and sq: "\<And>i j. Suc i < h \<Longrightarrow> Suc j < w \<Longrightarrow>
              (a ! Suc i ! j - a ! i ! j) * (a ! Suc i ! j - a ! i ! j)
              + (a ! i ! Suc j - a ! i ! j) * (a ! i ! Suc j - a ! i ! j) = c"
  shows "compute_mean_squared_slope a delta_x = Fin (sqrt c / (delta_x * sqrt 2))"
proof -
  have "slope_squares h w a = map (\<lambda>i. map (\<lambda>j. c) [0..<w - Suc 0]) [0..<h - Suc 0]"
    unfolding slope_squares_def
  proof (intro map_cong refl)
    fix i j assume "i \<in> set [0..<h - Suc 0]" "j \<in> set [0..<w - Suc 0]"
    then have "Suc i < h" "Suc j < w" by auto
    then show "(a ! Suc i ! j - a ! i ! j) * (a ! Suc i ! j - a ! i ! j)
              + (a ! i ! Suc j - a ! i ! j) * (a ! i ! Suc j - a ! i ! j) = c"
      by (rule sq)
  qed
  moreover have "0 < h - Suc 0" "0 < w - Suc 0" using h w by simp_all
  ultimately have mean: "np_mean (slope_squares h w a) = Fin c"
    by (simp only: np_mean_const_grid)
  have nz: "delta_x * sqrt 2 \<noteq> 0" using dx by simp
  show ?thesis
    unfolding mean_squared_slope_rect [OF r] mean
    using c by (simp only: np_sqrt.simps if_True Fin_divide [OF nz])
qed

lemma rect_replicate: "rect h w (replicate h (replicate w z))"
  by (simp add: rect_def)

lemma flat_window_slope:
  assumes "2 \<le> h" "2 \<le> w" "0 < delta_x"
  shows "compute_mean_squared_slope (replicate h (replicate w z)) delta_x = Fin 0"
proof -
  have "compute_mean_squared_slope (replicate h (replicate w z)) delta_x
        = Fin (sqrt 0 / (delta_x * sqrt 2))"
    using assms by (intro mean_squared_slope_const_squares [OF rect_replicate]) simp_all
  then show ?thesis by simp
qed

lemma rect_ramp: "rect h w (map (\<lambda>i. replicate w (s * real i)) [0..<h])"
  by (auto simp: rect_def)

lemma ramp_window_slope:
  assumes "2 \<le> h" "2 \<le> w" "0 < delta_x"
  shows "compute_mean_squared_slope (map (\<lambda>i. replicate w (s * real i)) [0..<h]) delta_x
         = Fin (\<bar>s\<bar> / (delta_x * sqrt 2))"
proof -
  have "compute_mean_squared_slope (map (\<lambda>i. replicate w (s * real i)) [0..<h]) delta_x
        = Fin (sqrt (s * s) / (delta_x * sqrt 2))"
    using assms by (intro mean_squared_slope_const_squares [OF rect_ramp]) (simp_all add: algebra_simps)
  then show ?thesis by simp
qed

lemma typical_width_zero_slope:
  "compute_typical_width (Fin 0) (Fin s) = (if s = 0 then NaN else if 0 < s then PInf else NInf)"
  by (simp add: compute_typical_width_def zero_less_mult_iff)

lemma slope_squares_offset:
  assumes "rect h w a"
  shows "slope_squares h w (map (map (\<lambda>z. z + c)) a) = slope_squares h w a"
  unfolding slope_squares_def
proof (intro map_cong refl)
  fix i j assume "i \<in> set [0..<h - Suc 0]" "j \<in> set [0..<w - Suc 0]"
  then have i: "Suc i < h" "i < h" and j: "Suc j < w" "j < w" by auto
  have len: "length a = h" and row: "\<And>k. k < h \<Longrightarrow> length (a ! k) = w"
    using assms by (simp_all add: rect_def)
  have e: "\<And>k l. k < h \<Longrightarrow> l < w \<Longrightarrow> map (map (\<lambda>z. z + c)) a ! k ! l = a ! k ! l + c"
    by (simp add: len row)
  show "(map (map (\<lambda>z. z + c)) a ! Suc i ! j - map (map (\<lambda>z. z + c)) a ! i ! j)
        * (map (map (\<lambda>z. z + c)) a ! Suc i ! j - map (map (\<lambda>z. z + c)) a ! i ! j)
        + (map (map (\<lambda>z. z + c)) a ! i ! Suc j - map (map (\<lambda>z. z + c)) a ! i ! j)
          * (map (map (\<lambda>z. z + c)) a ! i ! Suc j - map (map (\<lambda>z. z + c)) a ! i ! j)
        = (a ! Suc i ! j - a ! i ! j) * (a ! Suc i ! j - a ! i ! j)
          + (a ! i ! Suc j - a ! i ! j) * (a ! i ! Suc j - a ! i ! j)"
    by (simp add: e i j)
qed

lemma rect_map_map: "rect h w a \<Longrightarrow> rect h w (map (map f) a)"
  by (simp add: rect_def)

section \<open>Claims on the slope statistics\<close>

text \<open>
  Claim C2, as amended. For every window of constant elevation with at least two rows and
  two columns and every \<open>\<Delta>x > 0\<close>, \<open>compute_mean_squared_slope\<close> returns exactly 0.
  \<open>compute_typical_width\<close> applied to that zero raises nothing: the division is a numpy
  float division, which returns \<open>+inf\<close> for a positive elevation standard deviation and
  NaN for a zero one.
\<close>

theorem C2_flat_window_zero_slope_infinite_width:
  assumes "2 \<le> h" "2 \<le> w" "0 < delta_x"
  shows "compute_mean_squared_slope (replicate h (replicate w z)) delta_x = Fin 0 \<and>
         compute_typical_width
           (compute_mean_squared_slope (replicate h (replicate w z)) delta_x) (Fin s)
         = (if s = 0 then NaN else if 0 < s then PInf else NInf)"
  by (simp only: flat_window_slope [OF assms] typical_width_zero_slope simp_thms)

theorem C2_flat_window_zero_slope_infinite_width_witness:
  "(2::nat) \<le> 3 \<and> (2::nat) \<le> 3 \<and> (0::real) < 20 \<and>
   compute_mean_squared_slope (replicate 3 (replicate 3 5)) 20 = Fin 0 \<and>
   compute_typical_width (compute_mean_squared_slope (replicate 3 (replicate 3 5)) 20) (Fin 1)
     = PInf"
  using C2_flat_window_zero_slope_infinite_width [of 3 3 20 5 1] by auto

text \<open>
  The claim as stated fails: on a flat 3 by 3 window with \<open>\<Delta>x = 20\<close> and elevation
  standard deviation 1 the typical width is returned, and it is infinite.
\<close>

theorem C2_degenerate_slope_counterexample:
  "compute_typical_width
     (compute_mean_squared_slope [[5, 5, 5], [5, 5, 5], [5, 5, 5]] 20) (Fin 1) = PInf"
proof -
  have "[[5, 5, 5], [5, 5, 5], [5, 5, 5]] = replicate 3 (replicate 3 (5::real))"
    by (simp add: numeral_3_eq_3)
  then show ?thesis
    by (simp add: flat_window_slope typical_width_zero_slope)
qed

text \<open>
  Claim C8, as amended. For every window with at least two rows and two columns (so
  for every side length from 3 on) whose elevation is \<open>s * i\<close> at row \<open>i\<close>, and every
  \<open>\<Delta>x > 0\<close>, \<open>compute_mean_squared_slope\<close> returns \<open>|s| / (\<Delta>x * sqrt 2)\<close>, whatever
  the size of the window.
\<close>

theorem C8_linear_slope:
  assumes "2 \<le> h" "2 \<le> w" "0 < delta_x"
  shows "compute_mean_squared_slope (map (\<lambda>i. replicate w (s * real i)) [0..<h]) delta_x
         = Fin (\<bar>s\<bar> / (delta_x * sqrt 2))"
  using assms by (rule ramp_window_slope)

theorem C8_linear_slope_witness:
  "(2::nat) \<le> 3 \<and> (2::nat) \<le> 4 \<and> (0::real) < 20 \<and>
   compute_mean_squared_slope (map (\<lambda>i. replicate 4 (7 * real i)) [0..<3]) 20
     = Fin (\<bar>7\<bar> / (20 * sqrt 2))"
  using C8_linear_slope [of 3 4 20 7] by simp

text \<open>
  The claim as stated fails: with slope \<open>s = 1\<close> per row on a 3 by 3 window and
  \<open>\<Delta>x = 20\<close> the result is \<open>1 / (20 * sqrt 2)\<close>, not \<open>1 / sqrt 2\<close>.
\<close>

theorem C8_linear_slope_counterexample:
  "compute_mean_squared_slope [[0, 0, 0], [1, 1, 1], [2, 2, 2]] 20 \<noteq> Fin (1 / sqrt 2)"
proof -
  have "[[0, 0, 0], [1, 1, 1], [2, 2, 2]] = map (\<lambda>i. replicate 3 (1 * real i)) [0..<3]"
    by (simp add: numeral_3_eq_3 upt_3)
  moreover have "compute_mean_squared_slope (map (\<lambda>i. replicate 3 (1 * real i)) [0..<3]) 20
             = Fin (\<bar>1\<bar> / (20 * sqrt 2))"
    by (rule ramp_window_slope) simp_all
  ultimately have "compute_mean_squared_slope [[0, 0, 0], [1, 1, 1], [2, 2, 2]] 20
             = Fin (\<bar>1\<bar> / (20 * sqrt 2))"
    by (simp only:)
  then show ?thesis
    by simp
qed

text \<open>
  Claim C10. For every rectangular elevation window, every \<open>\<Delta>x\<close> and every constant
  \<open>c\<close>, adding \<open>c\<close> to every elevation leaves \<open>compute_mean_squared_slope\<close> unchanged:
  the entries kept after the cropping are differences of two elevations of the window.
\<close>

theorem C10_offset_invariant:
  assumes "rect h w a"
  shows "compute_mean_squared_slope (map (map (\<lambda>z. z + c)) a) delta_x
         = compute_mean_squared_slope a delta_x"
  by (simp only: mean_squared_slope_rect [OF assms]
      mean_squared_slope_rect [OF rect_map_map [OF assms]] slope_squares_offset [OF assms])

theorem C10_offset_invariant_witness:
  "rect 3 3 [[0, 1, 2], [3, 4, 6], [6, 7, 9 :: real]] \<and>
   compute_mean_squared_slope (map (map (\<lambda>z. z + 100)) [[0, 1, 2], [3, 4, 6], [6, 7, 9]]) 20
   = compute_mean_squared_slope [[0, 1, 2], [3, 4, 6], [6, 7, 9]] 20"
proof -
  have r: "rect 3 3 [[0, 1, 2], [3, 4, 6], [6, 7, 9 :: real]]"
    by (simp add: rect_def)
  show ?thesis
    using r C10_offset_invariant [OF r, of 100 20] by (intro conjI)
qed

section \<open>The Laplacian array\<close>

lemma rect_nrows: "rect h w a \<Longrightarrow> nrows a = h"
  by (simp add: rect_def nrows_def)

lemma rect_ncols: "rect h w a \<Longrightarrow> 0 < h \<Longrightarrow> ncols a = w"
  by (cases a) (simp_all add: rect_def ncols_def)

lemma rect_map_upt: "rect h w (map (\<lambda>i. map (f i) [0..<w]) [0..<h])"
  by (auto simp: rect_def)

lemma convolve2d_valid_laplacian:
  assumes "rect h w a" "3 \<le> h" "3 \<le> w"
  shows "convolve2d_valid a laplacian_kernel =
         Inr (map (\<lambda>i. map (\<lambda>j. full_at a laplacian_kernel (int i + 2) (int j + 2))
                            [0..<w - 2]) [0..<h - 2])"
proof -
  have h: "nrows a = h" using assms(1) by (rule rect_nrows)
  have w: "ncols a = w" using assms(2) by (intro rect_ncols [OF assms(1)]) simp
  show ?thesis
    unfolding convolve2d_valid_def h w kernel_shapes
    using assms(2,3) by (simp add: add.commute)
qed

lemma setitem_interior:
  assumes "3 \<le> h" "3 \<le> w"
  shows "setitem_block_array (map (\<lambda>i. map (\<lambda>j. v) [0..<w]) [0..<h])
           (Some 1, Some (- 1)) (Some 1, Some (- 1))
           (map (\<lambda>i. map (g i) [0..<w - 2]) [0..<h - 2])
         = Inr (map (\<lambda>i. map (\<lambda>j. if 1 \<le> i \<and> i < h - 1 \<and> 1 \<le> j \<and> j < w - 1
                                     then g (i - 1) (j - 1) else v) [0..<w]) [0..<h])"
proof -
  let ?a = "map (\<lambda>i. map (\<lambda>j. v) [0..<w]) [0..<h]"
  let ?sub = "map (\<lambda>i. map (g i) [0..<w - 2]) [0..<h - 2]"
  have shape_a: "nrows ?a = h" "ncols ?a = w"
    using assms by (simp_all add: rect_nrows [OF rect_map_upt] rect_ncols [OF rect_map_upt])
  have shape_s: "nrows ?sub = h - 2" "ncols ?sub = w - 2"
    using assms by (simp_all add: rect_nrows [OF rect_map_upt] rect_ncols [OF rect_map_upt])
  have b: "slice_start h (Some 1, Some (- 1)) = 1" "slice_stop h (Some 1, Some (- 1)) = h - 1"
          "slice_start w (Some 1, Some (- 1)) = 1" "slice_stop w (Some 1, Some (- 1)) = w - 1"
    using assms by (simp_all add: slice_start_def slice_stop_def slice_index_1 slice_index_minus_1)
  have ok: "(h - 2 = h - 1 - 1 \<or> h - 2 = 1) \<and> (h - 2 = 0 \<or> w - 2 = w - 1 - 1 \<or> w - 2 = 1)"
    by arith
  have "setitem_block_array ?a (Some 1, Some (- 1)) (Some 1, Some (- 1)) ?sub
        = Inr (map (\<lambda>i. map (\<lambda>j. if 1 \<le> i \<and> i < h - 1 \<and> 1 \<le> j \<and> j < w - 1
                                    then ?sub ! (if h - 2 = 1 then 0 else i - 1)
                                              ! (if w - 2 = 1 then 0 else j - 1)
                                    else ?a ! i ! j)
                               [0..<length (?a ! i)]) [0..<length ?a])"
    unfolding setitem_block_array_def Let_def shape_a shape_s b
    by (simp only: ok if_True simp_thms)
  also have "\<dots> = Inr (map (\<lambda>i. map (\<lambda>j. if 1 \<le> i \<and> i < h - 1 \<and> 1 \<le> j \<and> j < w - 1
                                     then g (i - 1) (j - 1) else v) [0..<w]) [0..<h])"
  proof -
    have "map (\<lambda>i. map (\<lambda>j. if 1 \<le> i \<and> i < h - 1 \<and> 1 \<le> j \<and> j < w - 1
                                    then ?sub ! (if h - 2 = 1 then 0 else i - 1)
                                              ! (if w - 2 = 1 then 0 else j - 1)
                                    else ?a ! i ! j)
                               [0..<length (?a ! i)]) [0..<length ?a]
          = map (\<lambda>i. map (\<lambda>j. if 1 \<le> i \<and> i < h - 1 \<and> 1 \<le> j \<and> j < w - 1
                                     then g (i - 1) (j - 1) else v) [0..<w]) [0..<h]"
    proof (rule map_cong)
      show "[0..<length ?a] = [0..<h]" by simp
    next
      fix i assume "i \<in> set [0..<h]"
      then have i: "i < h" by simp
      show "map (\<lambda>j. if 1 \<le> i \<and> i < h - 1 \<and> 1 \<le> j \<and> j < w - 1
                       then ?sub ! (if h - 2 = 1 then 0 else i - 1)
                                 ! (if w - 2 = 1 then 0 else j - 1)
                       else ?a ! i ! j) [0..<length (?a ! i)]
            = map (\<lambda>j. if 1 \<le> i \<and> i < h - 1 \<and> 1 \<le> j \<and> j < w - 1
                          then g (i - 1) (j - 1) else v) [0..<w]"
      proof (rule map_cong)
        show "[0..<length (?a ! i)] = [0..<w]" using i by simp
      next
        fix j assume "j \<in> set [0..<w]"
        then have j: "j < w" by simp
        show "(if 1 \<le> i \<and> i < h - 1 \<and> 1 \<le> j \<and> j < w - 1
                then ?sub ! (if h - 2 = 1 then 0 else i - 1) ! (if w - 2 = 1 then 0 else j - 1)
                else ?a ! i ! j)
              = (if 1 \<le> i \<and> i < h - 1 \<and> 1 \<le> j \<and> j < w - 1 then g (i - 1) (j - 1) else v)"
        proof (cases "1 \<le> i \<and> i < h - 1 \<and> 1 \<le> j \<and> j < w - 1")
          case True
          then have i1: "i - 1 < h - 2" and j1: "j - 1 < w - 2" by auto
          have i0: "h - 2 = 1 \<Longrightarrow> i - 1 = 0" and j0: "w - 2 = 1 \<Longrightarrow> j - 1 = 0"
            using True by auto
          have "?sub ! (if h - 2 = 1 then 0 else i - 1) ! (if w - 2 = 1 then 0 else j - 1)
                = ?sub ! (i - 1) ! (j - 1)"
            using i0 j0 by (cases "h - 2 = 1"; cases "w - 2 = 1") simp_all
          also have "\<dots> = g (i - 1) (j - 1)"
            using i1 j1 by simp
          finally show ?thesis using True by simp
        next
          case False
          have "?a ! i ! j = v" using i j by simp
          with False show ?thesis by (simp only: if_False)
        qed
      qed
    qed
    then show ?thesis by simp
  qed
  finally show ?thesis .
qed

lemma map_map_const_rect:
  assumes "rect h w a"
  shows "map (map (\<lambda>_. v)) a = map (\<lambda>i. map (\<lambda>j. v) [0..<w]) [0..<h]"
proof (rule nth_equalityI)
  show "length (map (map (\<lambda>_. v)) a) = length (map (\<lambda>i. map (\<lambda>j. v) [0..<w]) [0..<h])"
    using assms by (simp add: rect_def)
next
  fix i assume "i < length (map (map (\<lambda>_. v)) a)"
  then have i: "i < h" "i < length a" using assms by (simp_all add: rect_def)
  have "length (a ! i) = w" using assms i(1) by (rule rect_row_length)
  then show "map (map (\<lambda>_. v)) a ! i = map (\<lambda>i. map (\<lambda>j. v) [0..<w]) [0..<h] ! i"
    using i by (simp add: map_replicate_const map_replicate_trivial)
qed

lemma laplacien_result:
  assumes "rect h w a" "3 \<le> h" "3 \<le> w"
  shows "compute_elevation_laplacien a delta_x =
         Inr (map (\<lambda>i. map (\<lambda>j. (if 1 \<le> i \<and> i < h - 1 \<and> 1 \<le> j \<and> j < w - 1
                                     then Fin (full_at a laplacian_kernel
                                                 (int (i - 1) + 2) (int (j - 1) + 2))
                                          / Fin (delta_x ^ 2)
                                     else NaN) * Fin delta_x / Fin 4)
                            [0..<w]) [0..<h])"
proof -
  let ?g = "\<lambda>i j. Fin (full_at a laplacian_kernel (int i + 2) (int j + 2)) / Fin (delta_x ^ 2)"
  have z: "map (map (\<lambda>v. Fin v / Fin (delta_x ^ 2)))
             (map (\<lambda>i. map (\<lambda>j. full_at a laplacian_kernel (int i + 2) (int j + 2))
                           [0..<w - 2]) [0..<h - 2])
           = map (\<lambda>i. map (?g i) [0..<w - 2]) [0..<h - 2]"
    by (simp add: comp_def)
  have p: "map (map (\<lambda>_. Fin 1 * NaN)) a = map (\<lambda>i. map (\<lambda>j. NaN) [0..<w]) [0..<h]"
    using map_map_const_rect [OF assms(1), of NaN] by simp
  show ?thesis
    unfolding compute_elevation_laplacien_def convolve2d_valid_laplacian [OF assms] Let_def
      sum.case z p setitem_interior [OF assms(2,3)]
    by (simp add: comp_def)
qed

lemma laplacian_stencil:
  assumes "rect h w a" "1 \<le> i" "i < h - 1" "1 \<le> j" "j < w - 1"
  shows "full_at a laplacian_kernel (int (i - 1) + 2) (int (j - 1) + 2)
         = a ! (i - 1) ! j + a ! (i + 1) ! j + a ! i ! (j - 1) + a ! i ! (j + 1) - 4 * a ! i ! j"
proof -
  have idx: "int (i - 1) + 2 = int (i + 1)" "int (j - 1) + 2 = int (j + 1)"
            "int (i + 1) - 1 = int i" "int (j + 1) - 1 = int j"
            "int (i + 1) - 2 = int (i - 1)" "int (j + 1) - 2 = int (j - 1)"
    using assms by simp_all
  have b: "i - 1 < h" "i < h" "i + 1 < h" "j - 1 < w" "j < w" "j + 1 < w"
    using assms by simp_all
  show ?thesis
    unfolding full_at_laplacian idx
    by (simp only: at0_inside [OF assms(1) b(3) b(5)] at0_inside [OF assms(1) b(2) b(6)]
        at0_inside [OF assms(1) b(2) b(5)] at0_inside [OF assms(1) b(2) b(4)]
        at0_inside [OF assms(1) b(1) b(5)])
qed

lemma laplacien_interior_pixel:
  assumes "rect h w a" "3 \<le> h" "3 \<le> w" "0 < delta_x"
    and "compute_elevation_laplacien a delta_x = Inr nabla"
    and "1 \<le> i" "i < h - 1" "1 \<le> j" "j < w - 1"
  shows "nabla ! i ! j =
         Fin ((a ! (i - 1) ! j + a ! (i + 1) ! j + a ! i ! (j - 1) + a ! i ! (j + 1)
               - 4 * a ! i ! j) / delta_x ^ 2 * delta_x / 4)"
proof -
  let ?f = "\<lambda>i j. (if 1 \<le> i \<and> i < h - 1 \<and> 1 \<le> j \<and> j < w - 1
                   then Fin (full_at a laplacian_kernel (int (i - 1) + 2) (int (j - 1) + 2))
                        / Fin (delta_x ^ 2)
                   else NaN) * Fin delta_x / Fin 4"
  have "nabla = map (\<lambda>i. map (?f i) [0..<w]) [0..<h]"
    using laplacien_result [OF assms(1-3), of delta_x] assms(5) by simp
  moreover have "i < h" "j < w" using assms(7,9) by simp_all
  ultimately have at: "nabla ! i ! j = ?f i j" by simp
  have c: "(1 \<le> i \<and> i < h - 1 \<and> 1 \<le> j \<and> j < w - 1) = True"
    using assms(6-9) by simp
  have st: "full_at a laplacian_kernel (int (i - 1) + 2) (int (j - 1) + 2)
         = a ! (i - 1) ! j + a ! (i + 1) ! j + a ! i ! (j - 1) + a ! i ! (j + 1) - 4 * a ! i ! j"
    by (rule laplacian_stencil [OF assms(1,6-9)])
  have nz: "delta_x ^ 2 \<noteq> 0" using assms(4) by simp
  show ?thesis
    unfolding at c if_True st using nz by simp
qed

section \<open>Claim on the Laplacian\<close>

text \<open>
  Claim C9. For every elevation array with at least 3 rows and 3 columns and every
  \<open>\<Delta>x > 0\<close>, \<open>compute_elevation_laplacien\<close> returns an array of the shape of its input
  whose first and last rows and columns are NaN and whose every other entry is the sum of
  the four edge neighbours minus four times the centre, divided by \<open>\<Delta>x\<^sup>2\<close> and then
  multiplied by \<open>\<Delta>x / 4\<close>.
\<close>

theorem C9_laplacien_border_and_interior:
  assumes "rect h w a" "3 \<le> h" "3 \<le> w" "0 < delta_x"
  shows "\<exists>nabla. compute_elevation_laplacien a delta_x = Inr nabla \<and> rect h w nabla \<and>
           (\<forall>i<h. \<forall>j<w. nabla ! i ! j =
              (if 1 \<le> i \<and> i < h - 1 \<and> 1 \<le> j \<and> j < w - 1
               then Fin ((a ! (i - 1) ! j + a ! (i + 1) ! j + a ! i ! (j - 1) + a ! i ! (j + 1)
                          - 4 * a ! i ! j) / delta_x ^ 2 * delta_x / 4)
               else NaN))"
proof (intro exI conjI allI impI)
  let ?f = "\<lambda>i j. (if 1 \<le> i \<and> i < h - 1 \<and> 1 \<le> j \<and> j < w - 1
                   then Fin (full_at a laplacian_kernel (int (i - 1) + 2) (int (j - 1) + 2))
                        / Fin (delta_x ^ 2)
                   else NaN) * Fin delta_x / Fin 4"
  let ?nabla = "map (\<lambda>i. map (?f i) [0..<w]) [0..<h]"
  show "compute_elevation_laplacien a delta_x = Inr ?nabla"
    using assms(1-3) by (rule laplacien_result)
  show "rect h w ?nabla"
    by (rule rect_map_upt)
  fix i j assume i: "i < h" and j: "j < w"
  have nz: "delta_x ^ 2 \<noteq> 0" using assms(4) by simp
  have at: "?nabla ! i ! j = ?f i j" using i j by simp
  show "?nabla ! i ! j =
          (if 1 \<le> i \<and> i < h - 1 \<and> 1 \<le> j \<and> j < w - 1
           then Fin ((a ! (i - 1) ! j + a ! (i + 1) ! j + a ! i ! (j - 1) + a ! i ! (j + 1)
                      - 4 * a ! i ! j) / delta_x ^ 2 * delta_x / 4)
           else NaN)"
  proof (cases "1 \<le> i \<and> i < h - 1 \<and> 1 \<le> j \<and> j < w - 1")
    case True
    then have st: "full_at a laplacian_kernel (int (i - 1) + 2) (int (j - 1) + 2)
         = a ! (i - 1) ! j + a ! (i + 1) ! j + a ! i ! (j - 1) + a ! i ! (j + 1) - 4 * a ! i ! j"
      by (intro laplacian_stencil [OF assms(1)]) simp_all
    have c: "(1 \<le> i \<and> i < h - 1 \<and> 1 \<le> j \<and> j < w - 1) = True"
      using True by simp
    show ?thesis
      unfolding at c if_True st using nz by simp
  next
    case False
    then have c: "(1 \<le> i \<and> i < h - 1 \<and> 1 \<le> j \<and> j < w - 1) = False"
      by simp
    show ?thesis
      unfolding at c if_False by simp
  qed
qed

theorem C9_laplacien_border_and_interior_witness:
  "rect 3 3 [[1, 2, 3], [4, 9, 6], [7, 8, 10 :: real]] \<and> (3::nat) \<le> 3 \<and> (3::nat) \<le> 3
   \<and> (0::real) < 20 \<and>
   (\<exists>nabla. compute_elevation_laplacien [[1, 2, 3], [4, 9, 6], [7, 8, 10]] 20 = Inr nabla
      \<and> rect 3 3 nabla \<and>
      (\<forall>i<3. \<forall>j<3. nabla ! i ! j =
         (if 1 \<le> i \<and> i < 3 - 1 \<and> 1 \<le> j \<and> j < 3 - 1
          then Fin (([[1, 2, 3], [4, 9, 6], [7, 8, 10]] ! (i - 1) ! j
                     + [[1, 2, 3], [4, 9, 6], [7, 8, 10]] ! (i + 1) ! j
                     + [[1, 2, 3], [4, 9, 6], [7, 8, 10]] ! i ! (j - 1)
                     + [[1, 2, 3], [4, 9, 6], [7, 8, 10]] ! i ! (j + 1)
                     - 4 * [[1, 2, 3], [4, 9, 6], [7, 8, 10]] ! i ! j) / 20 ^ 2 * 20 / 4)
          else NaN)))"
proof -
  have r: "rect 3 3 [[1, 2, 3], [4, 9, 6], [7, 8, 10 :: real]]"
    by (simp add: rect_def)
  have h: "(3::nat) \<le> 3" by simp
  have d: "(0::real) < 20" by simp
  show ?thesis
    using r h d C9_laplacien_border_and_interior [OF r h h d] by (intro conjI)
qed

section \<open>Blocks of a rectangular array\<close>

lemma slice_index_le: "slice_index n k \<le> n"
  unfolding slice_index_def by (cases "k < 0") simp_all

lemma slice_start_le: "slice_start n s \<le> n"
  by (simp add: slice_start_def slice_index_le split: option.split)

lemma slice_stop_le: "slice_stop n s \<le> n"
  by (simp add: slice_stop_def slice_index_le split: option.split)

lemma length_py_slice:
  "length (py_slice s xs) = slice_stop (length xs) s - slice_start (length xs) s"
  using slice_stop_le [of "length xs" s] by (simp add: py_slice_def)

lemma nth_py_slice:
  "k < slice_stop (length xs) s - slice_start (length xs) s \<Longrightarrow>
   py_slice s xs ! k = xs ! (slice_start (length xs) s + k)"
  using slice_stop_le [of "length xs" s] by (simp add: py_slice_def)

lemma slice2_rect:
  assumes "rect h w a"
  shows "slice2 rs cs a =
         map (\<lambda>k. map (\<lambda>l. a ! (slice_start h rs + k) ! (slice_start w cs + l))
                       [0..<slice_stop w cs - slice_start w cs])
             [0..<slice_stop h rs - slice_start h rs]"
proof -
  have len: "length a = h" using assms by (simp add: rect_def)
  show ?thesis
  proof (rule nth_equalityI)
    show "length (slice2 rs cs a) =
          length (map (\<lambda>k. map (\<lambda>l. a ! (slice_start h rs + k) ! (slice_start w cs + l))
                       [0..<slice_stop w cs - slice_start w cs])
             [0..<slice_stop h rs - slice_start h rs])"
      by (simp add: slice2_def length_py_slice len)
  next
    fix k assume "k < length (slice2 rs cs a)"
    then have k: "k < slice_stop h rs - slice_start h rs"
      by (simp add: slice2_def length_py_slice len)
    then have kk: "slice_start h rs + k < h"
      using slice_stop_le [of h rs] by simp
    have row: "length (a ! (slice_start h rs + k)) = w"
      using assms kk by (rule rect_row_length)
    have "slice2 rs cs a ! k = py_slice cs (a ! (slice_start h rs + k))"
      using k by (simp add: slice2_def length_py_slice len nth_py_slice)
    also have "\<dots> = map (\<lambda>l. a ! (slice_start h rs + k) ! (slice_start w cs + l))
                         [0..<slice_stop w cs - slice_start w cs]"
      by (rule nth_equalityI) (simp_all add: length_py_slice nth_py_slice row)
    finally show "slice2 rs cs a ! k =
          map (\<lambda>k. map (\<lambda>l. a ! (slice_start h rs + k) ! (slice_start w cs + l))
                       [0..<slice_stop w cs - slice_start w cs])
             [0..<slice_stop h rs - slice_start h rs] ! k"
      using k by simp
  qed
qed

lemma concat_grid_empty_iff:
  "concat (map (\<lambda>k. map (f k) [0..<m]) [0..<n]) = [] \<longleftrightarrow> n = 0 \<or> m = 0"
proof -
  have "length (concat (map (\<lambda>k. map (f k) [0..<m]) [0..<n])) = n * m"
    by (rule length_concat_grid)
  then show ?thesis
    by (metis length_0_conv mult_is_0)
qed

lemma setitem_block_scalar_rect:
  assumes "rect h w a" "0 < h"
  shows "setitem_block_scalar a rs cs v =
         map (\<lambda>i. map (\<lambda>j. if slice_start h rs \<le> i \<and> i < slice_stop h rs
                              \<and> slice_start w cs \<le> j \<and> j < slice_stop w cs
                            then v else a ! i ! j) [0..<w]) [0..<h]"
proof -
  have sh: "nrows a = h" "ncols a = w" "length a = h"
    using rect_nrows [OF assms(1)] rect_ncols [OF assms] by (simp_all add: nrows_def)
  show ?thesis
    unfolding setitem_block_scalar_def Let_def sh
    by (rule map_cong) (simp_all add: rect_row_length [OF assms(1)])
qed

lemma setitem_block_array_rect:
  assumes a: "rect h w a" "0 < h"
    and lt: "slice_start h rs < slice_stop h rs" "slice_start w cs < slice_stop w cs"
  shows "setitem_block_array a rs cs
           (map (\<lambda>k. map (g k) [0..<slice_stop w cs - slice_start w cs])
                [0..<slice_stop h rs - slice_start h rs])
         = Inr (map (\<lambda>i. map (\<lambda>j. if slice_start h rs \<le> i \<and> i < slice_stop h rs
                                     \<and> slice_start w cs \<le> j \<and> j < slice_stop w cs
                                   then g (i - slice_start h rs) (j - slice_start w cs)
                                   else a ! i ! j) [0..<w]) [0..<h])"
proof -
  define r0 where "r0 = slice_start h rs"
  define r1 where "r1 = slice_stop h rs"
  define c0 where "c0 = slice_start w cs"
  define c1 where "c1 = slice_stop w cs"
  let ?sub = "map (\<lambda>k. map (g k) [0..<c1 - c0]) [0..<r1 - r0]"
  have lt': "r0 < r1" "c0 < c1" using lt by (simp_all add: r0_def r1_def c0_def c1_def)
  have sh: "nrows a = h" "ncols a = w" "length a = h"
    using rect_nrows [OF a(1)] rect_ncols [OF a] by (simp_all add: nrows_def)
  have ss: "nrows ?sub = r1 - r0" "ncols ?sub = c1 - c0"
    using lt' by (simp_all add: rect_nrows [OF rect_map_upt] rect_ncols [OF rect_map_upt])
  have ok: "(r1 - r0 = r1 - r0 \<or> r1 - r0 = 1) \<and> (r1 - r0 = 0 \<or> c1 - c0 = c1 - c0 \<or> c1 - c0 = 1)"
    by simp
  have "setitem_block_array a rs cs ?sub
        = Inr (map (\<lambda>i. map (\<lambda>j. if r0 \<le> i \<and> i < r1 \<and> c0 \<le> j \<and> j < c1
                                    then ?sub ! (if r1 - r0 = 1 then 0 else i - r0)
                                              ! (if c1 - c0 = 1 then 0 else j - c0)
                                    else a ! i ! j)
                               [0..<length (a ! i)]) [0..<h])"
    unfolding setitem_block_array_def Let_def sh ss
      r0_def [symmetric] r1_def [symmetric] c0_def [symmetric] c1_def [symmetric]
    by (simp only: ok if_True simp_thms)
  also have "map (\<lambda>i. map (\<lambda>j. if r0 \<le> i \<and> i < r1 \<and> c0 \<le> j \<and> j < c1
                                    then ?sub ! (if r1 - r0 = 1 then 0 else i - r0)
                                              ! (if c1 - c0 = 1 then 0 else j - c0)
                                    else a ! i ! j)
                               [0..<length (a ! i)]) [0..<h]
        = map (\<lambda>i. map (\<lambda>j. if r0 \<le> i \<and> i < r1 \<and> c0 \<le> j \<and> j < c1
                               then g (i - r0) (j - c0) else a ! i ! j) [0..<w]) [0..<h]"
  proof (rule map_cong [OF refl])
    fix i assume "i \<in> set [0..<h]"
    then have i: "i < h" by simp
    show "map (\<lambda>j. if r0 \<le> i \<and> i < r1 \<and> c0 \<le> j \<and> j < c1
                     then ?sub ! (if r1 - r0 = 1 then 0 else i - r0)
                               ! (if c1 - c0 = 1 then 0 else j - c0)
                     else a ! i ! j) [0..<length (a ! i)]
          = map (\<lambda>j. if r0 \<le> i \<and> i < r1 \<and> c0 \<le> j \<and> j < c1
                        then g (i - r0) (j - c0) else a ! i ! j) [0..<w]"
    proof (rule map_cong)
      show "[0..<length (a ! i)] = [0..<w]"
        using rect_row_length [OF a(1) i] by simp
    next
      fix j assume "j \<in> set [0..<w]"
      show "(if r0 \<le> i \<and> i < r1 \<and> c0 \<le> j \<and> j < c1
              then ?sub ! (if r1 - r0 = 1 then 0 else i - r0) ! (if c1 - c0 = 1 then 0 else j - c0)
              else a ! i ! j)
            = (if r0 \<le> i \<and> i < r1 \<and> c0 \<le> j \<and> j < c1 then g (i - r0) (j - c0) else a ! i ! j)"
      proof (cases "r0 \<le> i \<and> i < r1 \<and> c0 \<le> j \<and> j < c1")
        case True
        then have i1: "i - r0 < r1 - r0" and j1: "j - c0 < c1 - c0" by auto
        have i0: "r1 - r0 = 1 \<Longrightarrow> i - r0 = 0" and j0: "c1 - c0 = 1 \<Longrightarrow> j - c0 = 0"
          using True by auto
        have "?sub ! (if r1 - r0 = 1 then 0 else i - r0) ! (if c1 - c0 = 1 then 0 else j - c0)
              = ?sub ! (i - r0) ! (j - c0)"
          using i0 j0 by (cases "r1 - r0 = 1"; cases "c1 - c0 = 1") simp_all
        also have "\<dots> = g (i - r0) (j - c0)"
          using i1 j1 by simp
        finally show ?thesis using True by simp
      next
        case False
        then show ?thesis by (simp only: if_False)
      qed
    qed
  qed
  finally show ?thesis
    by (simp only: r0_def r1_def c0_def c1_def)
qed

section \<open>One call of the second-pass wrapper\<close>

lemma wrapper_unfold:
  assumes "array_coords_of dem row = Inr rc"
  shows "downscaling_parameters_processing_wrapper row dem F_array X_array nabla_array =
         (case populate_topo_params rc (cell_mu dem rc) (cell_xi dem rc)
                 (subset_array nabla_array rc) F_array X_array of
            Inr arrays \<Rightarrow> Inr arrays
          | Inl _ \<Rightarrow> Inr (PyInt (- 999), PyInt (- 999)))"
  using assms
  by (simp add: downscaling_parameters_processing_wrapper_def array_coords_of_def Let_def
      cell_mu_def cell_xi_def)

lemma wrapper_index_raises:
  assumes "array_coords_of dem row = Inl e"
  shows "downscaling_parameters_processing_wrapper row dem F_array X_array nabla_array = Inl e"
  using assms
  by (simp add: downscaling_parameters_processing_wrapper_def array_coords_of_def Let_def)

lemma subset_array_rect:
  assumes "rect h w a"
  shows "subset_array a rc =
         map (\<lambda>k. map (\<lambda>l. a ! (slice_start h (block_rows rc) + k)
                               ! (slice_start w (block_cols rc) + l))
                       [0..<slice_stop w (block_cols rc) - slice_start w (block_cols rc)])
             [0..<slice_stop h (block_rows rc) - slice_start h (block_rows rc)]"
  unfolding subset_array_def by (rule slice2_rect [OF assms])

lemma subset_array_empty_iff:
  assumes "rect h w a"
  shows "concat (subset_array a rc) = [] \<longleftrightarrow>
         \<not> (slice_start h (block_rows rc) < slice_stop h (block_rows rc)
            \<and> slice_start w (block_cols rc) < slice_stop w (block_cols rc))"
  unfolding subset_array_rect [OF assms] concat_grid_empty_iff by auto

lemma populate_empty_window:
  assumes "concat nabla_array_subset = []"
  shows "populate_topo_params rc m x nabla_array_subset F_array X_array = Inl ValueError"
  using assms
  by (simp add: populate_topo_params_def compute_downscaling_factor_vectorized_def Let_def)

lemma populate_on_integer:
  "\<exists>e. populate_topo_params rc m x nabla_array_subset (PyInt n) X_array = Inl e"
  by (simp add: populate_topo_params_def compute_downscaling_factor_vectorized_def Let_def
      setitem_scalar_def)

lemma populate_on_integer_2:
  "\<exists>e. populate_topo_params rc m x nabla_array_subset F_array (PyInt n) = Inl e"
  by (cases F_array)
     (simp_all add: populate_topo_params_def compute_downscaling_factor_vectorized_def Let_def
      setitem_scalar_def setitem_array_def)

lemma wrapper_empty_window:
  assumes "array_coords_of dem row = Inr rc" "concat (subset_array nabla_array rc) = []"
  shows "downscaling_parameters_processing_wrapper row dem F_array X_array nabla_array
         = Inr (PyInt (- 999), PyInt (- 999))"
  by (simp add: wrapper_unfold [OF assms(1)] populate_empty_window [OF assms(2)])

lemma wrapper_on_integer:
  assumes "array_coords_of dem row = Inr rc"
  shows "downscaling_parameters_processing_wrapper row dem (PyInt n) X_array nabla_array
         = Inr (PyInt (- 999), PyInt (- 999))"
  using populate_on_integer [of rc "cell_mu dem rc" "cell_xi dem rc"
      "subset_array nabla_array rc" n X_array]
  by (auto simp: wrapper_unfold [OF assms])

lemma wrapper_on_integer_2:
  assumes "array_coords_of dem row = Inr rc"
  shows "downscaling_parameters_processing_wrapper row dem F_array (PyInt n) nabla_array
         = Inr (PyInt (- 999), PyInt (- 999))"
  using populate_on_integer_2 [of rc "cell_mu dem rc" "cell_xi dem rc"
      "subset_array nabla_array rc" F_array n]
  by (auto simp: wrapper_unfold [OF assms])

lemma populate_rect:
  assumes F: "rect h w F" and X: "rect h w X" and N: "rect h w nabla" and h: "0 < h"
    and lt: "slice_start h (block_rows rc) < slice_stop h (block_rows rc)"
            "slice_start w (block_cols rc) < slice_stop w (block_cols rc)"
  shows "populate_topo_params rc m x (subset_array nabla rc) (NdArray F) (NdArray X) =
         Inr (NdArray (map (\<lambda>p. map (\<lambda>q. if in_block h w rc p q
                                           then compute_sky_view_factor m x global_L
                                           else F ! p ! q) [0..<w]) [0..<h]),
              NdArray (map (\<lambda>p. map (\<lambda>q. if in_block h w rc p q
                                           then compute_downscaling_factor (nabla ! p ! q) m
                                           else X ! p ! q) [0..<w]) [0..<h]))"
proof -
  let ?r0 = "slice_start h (block_rows rc)" and ?r1 = "slice_stop h (block_rows rc)"
  let ?c0 = "slice_start w (block_cols rc)" and ?c1 = "slice_stop w (block_cols rc)"
  let ?g = "\<lambda>k l. compute_downscaling_factor (nabla ! (?r0 + k) ! (?c0 + l)) m"
  let ?sub = "map (\<lambda>k. map (?g k) [0..<?c1 - ?c0]) [0..<?r1 - ?r0]"
  have ne: "concat (subset_array nabla rc) \<noteq> []"
    using lt subset_array_empty_iff [OF N, of rc] by blast
  have vec: "compute_downscaling_factor_vectorized (subset_array nabla rc) m = Inr ?sub"
    using ne unfolding compute_downscaling_factor_vectorized_def
    by (simp add: subset_array_rect [OF N] comp_def)
  have Xset: "setitem_block_array X (block_rows rc) (block_cols rc) ?sub
        = Inr (map (\<lambda>p. map (\<lambda>q. if ?r0 \<le> p \<and> p < ?r1 \<and> ?c0 \<le> q \<and> q < ?c1
                                   then ?g (p - ?r0) (q - ?c0)
                                   else X ! p ! q) [0..<w]) [0..<h])"
    by (rule setitem_block_array_rect [OF X h lt])
  have Xeq: "map (\<lambda>p. map (\<lambda>q. if ?r0 \<le> p \<and> p < ?r1 \<and> ?c0 \<le> q \<and> q < ?c1
                                   then ?g (p - ?r0) (q - ?c0)
                                   else X ! p ! q) [0..<w]) [0..<h]
           = map (\<lambda>p. map (\<lambda>q. if in_block h w rc p q
                                  then compute_downscaling_factor (nabla ! p ! q) m
                                  else X ! p ! q) [0..<w]) [0..<h]"
    by (intro map_cong refl) (auto simp: in_block_def)
  show ?thesis
    unfolding populate_topo_params_def Let_def vec sum.case setitem_scalar_def pyval.case
      setitem_array_def Xset Xeq setitem_block_scalar_rect [OF F h]
    by (simp add: in_block_def)
qed

section \<open>The loop of the second pass\<close>

lemma in_block_bounds: "in_block h w rc p q \<Longrightarrow> p < h \<and> q < w"
  using slice_stop_le [of h "block_rows rc"] slice_stop_le [of w "block_cols rc"]
  by (simp add: in_block_def)

lemma in_block_nonempty:
  "in_block h w rc p q \<Longrightarrow>
   slice_start h (block_rows rc) < slice_stop h (block_rows rc)
   \<and> slice_start w (block_cols rc) < slice_stop w (block_cols rc)"
  by (simp add: in_block_def)

lemma nonempty_in_block:
  "slice_start h (block_rows rc) < slice_stop h (block_rows rc) \<Longrightarrow>
   slice_start w (block_cols rc) < slice_stop w (block_cols rc) \<Longrightarrow>
   in_block h w rc (slice_start h (block_rows rc)) (slice_start w (block_cols rc))"
  by (simp add: in_block_def)

text \<open>A call on two arrays either writes the block of the cell or returns the two integers.\<close>

lemma wrapper_writes_block:
  assumes F: "rect h w F" and X: "rect h w X" and N: "rect h w nabla" and h: "0 < h"
    and rc: "array_coords_of dem row = Inr rc" and blk: "in_block h w rc p0 q0"
  shows "downscaling_parameters_processing_wrapper row dem (NdArray F) (NdArray X) nabla =
         Inr (NdArray (map (\<lambda>p. map (\<lambda>q. if in_block h w rc p q then cell_F_sky dem rc
                                           else F ! p ! q) [0..<w]) [0..<h]),
              NdArray (map (\<lambda>p. map (\<lambda>q. if in_block h w rc p q
                                           then compute_downscaling_factor (nabla ! p ! q)
                                                  (cell_mu dem rc)
                                           else X ! p ! q) [0..<w]) [0..<h]))"
proof -
  note lt = in_block_nonempty [OF blk]
  show ?thesis
    unfolding wrapper_unfold [OF rc]
      populate_rect [OF F X N h lt [THEN conjunct1] lt [THEN conjunct2]]
    by (simp add: cell_F_sky_def)
qed

lemma wrapper_skips_to_integers:
  assumes N: "rect h w nabla" and rc: "array_coords_of dem row = Inr rc"
    and blk: "\<And>p q. \<not> in_block h w rc p q"
  shows "downscaling_parameters_processing_wrapper row dem F_array X_array nabla
         = Inr (PyInt (- 999), PyInt (- 999))"
proof -
  have "\<not> (slice_start h (block_rows rc) < slice_stop h (block_rows rc)
            \<and> slice_start w (block_cols rc) < slice_stop w (block_cols rc))"
    using blk nonempty_in_block [of h rc w] by blast
  then have "concat (subset_array nabla rc) = []"
    using subset_array_empty_iff [OF N, of rc] by blast
  then show ?thesis
    by (rule wrapper_empty_window [OF rc])
qed

text \<open>Once a variable of the driver holds an integer, both hold integers to the end.\<close>

lemma raster_loop_integer_stays:
  "raster_loop cs dem (PyInt n, X_array) nabla \<noteq> Inr (NdArray F', X')"
proof (induction cs arbitrary: n X_array)
  case Nil
  show ?case by simp
next
  case (Cons c cs)
  show ?case
  proof (cases "array_coords_of dem c")
    case (Inl e)
    then show ?thesis by (simp add: wrapper_index_raises)
  next
    case (Inr rc)
    then show ?thesis using Cons.IH by (simp add: wrapper_on_integer)
  qed
qed

lemma raster_loop_first_step:
  assumes F: "rect h w F" and X: "rect h w X" and N: "rect h w nabla" and h: "0 < h"
    and run: "raster_loop (c # cs) dem (NdArray F, NdArray X) nabla = Inr (NdArray Ff, Xf)"
  obtains rc p0 q0 where "array_coords_of dem c = Inr rc" "in_block h w rc p0 q0"
proof (cases "array_coords_of dem c")
  case (Inl e)
  then show ?thesis using run by (simp add: wrapper_index_raises)
next
  case (Inr rc)
  show ?thesis
  proof (cases "\<exists>p q. in_block h w rc p q")
    case True
    then show ?thesis using Inr that by blast
  next
    case False
    then have "downscaling_parameters_processing_wrapper c dem (NdArray F) (NdArray X) nabla
               = Inr (PyInt (- 999), PyInt (- 999))"
      by (intro wrapper_skips_to_integers [OF N Inr]) blast
    then show ?thesis using run raster_loop_integer_stays by simp
  qed
qed

lemma raster_loop_step:
  assumes F: "rect h w F" and X: "rect h w X" and N: "rect h w nabla" and h: "0 < h"
    and run: "raster_loop (c # cs) dem (NdArray F, NdArray X) nabla = Inr (NdArray Ff, Xf)"
  obtains rc F1 X1 where
    "array_coords_of dem c = Inr rc" "rect h w F1" "rect h w X1"
    "raster_loop cs dem (NdArray F1, NdArray X1) nabla = Inr (NdArray Ff, Xf)"
    "\<And>p q. p < h \<Longrightarrow> q < w \<Longrightarrow>
       F1 ! p ! q = (if in_block h w rc p q then cell_F_sky dem rc else F ! p ! q)"
    "\<And>p q. p < h \<Longrightarrow> q < w \<Longrightarrow>
       X1 ! p ! q = (if in_block h w rc p q
                     then compute_downscaling_factor (nabla ! p ! q) (cell_mu dem rc)
                     else X ! p ! q)"
proof -
  obtain rc p0 q0 where rc: "array_coords_of dem c = Inr rc" and blk: "in_block h w rc p0 q0"
    using raster_loop_first_step [OF F X N h run] by blast
  let ?F1 = "map (\<lambda>p. map (\<lambda>q. if in_block h w rc p q then cell_F_sky dem rc
                               else F ! p ! q) [0..<w]) [0..<h]"
  let ?X1 = "map (\<lambda>p. map (\<lambda>q. if in_block h w rc p q
                               then compute_downscaling_factor (nabla ! p ! q) (cell_mu dem rc)
                               else X ! p ! q) [0..<w]) [0..<h]"
  have w: "downscaling_parameters_processing_wrapper c dem (NdArray F) (NdArray X) nabla
           = Inr (NdArray ?F1, NdArray ?X1)"
    by (rule wrapper_writes_block [OF F X N h rc blk])
  have "raster_loop cs dem (NdArray ?F1, NdArray ?X1) nabla = Inr (NdArray Ff, Xf)"
    using run by (simp add: w)
  moreover have "rect h w ?F1" "rect h w ?X1"
    by (rule rect_map_upt)+
  moreover have "\<And>p q. p < h \<Longrightarrow> q < w \<Longrightarrow>
       ?F1 ! p ! q = (if in_block h w rc p q then cell_F_sky dem rc else F ! p ! q)"
    by simp
  moreover have "\<And>p q. p < h \<Longrightarrow> q < w \<Longrightarrow>
       ?X1 ! p ! q = (if in_block h w rc p q
                     then compute_downscaling_factor (nabla ! p ! q) (cell_mu dem rc)
                     else X ! p ! q)"
    by simp
  ultimately show ?thesis using rc that by blast
qed

text \<open>A pixel that no window of the remaining cells contains keeps its value.\<close>

lemma raster_loop_frame:
  assumes "rect h w F" "rect h w X" "rect h w nabla" "0 < h"
    and "raster_loop cs dem (NdArray F, NdArray X) nabla = Inr (NdArray Ff, NdArray Xf)"
    and "p < h" "q < w"
    and "\<And>c rc. c \<in> set cs \<Longrightarrow> array_coords_of dem c = Inr rc \<Longrightarrow> \<not> in_block h w rc p q"
  shows "Ff ! p ! q = F ! p ! q \<and> Xf ! p ! q = X ! p ! q"
  using assms
proof (induction cs arbitrary: F X)
  case Nil
  then show ?case by simp
next
  case (Cons c cs)
  obtain rc F1 X1 where rc: "array_coords_of dem c = Inr rc"
    and r1: "rect h w F1" "rect h w X1"
    and run: "raster_loop cs dem (NdArray F1, NdArray X1) nabla = Inr (NdArray Ff, NdArray Xf)"
    and F1: "\<And>p q. p < h \<Longrightarrow> q < w \<Longrightarrow>
       F1 ! p ! q = (if in_block h w rc p q then cell_F_sky dem rc else F ! p ! q)"
    and X1: "\<And>p q. p < h \<Longrightarrow> q < w \<Longrightarrow>
       X1 ! p ! q = (if in_block h w rc p q
                     then compute_downscaling_factor (nabla ! p ! q) (cell_mu dem rc)
                     else X ! p ! q)"
    using raster_loop_step [OF Cons.prems(1-5)] by blast
  have out: "\<not> in_block h w rc p q"
    using Cons.prems(8) [of c rc] rc by simp
  have "Ff ! p ! q = F1 ! p ! q \<and> Xf ! p ! q = X1 ! p ! q"
  proof (rule Cons.IH [OF r1 Cons.prems(3,4) run Cons.prems(6,7)])
    fix c' rc' assume "c' \<in> set cs" "array_coords_of dem c' = Inr rc'"
    then show "\<not> in_block h w rc' p q" using Cons.prems(8) [of c' rc'] by simp
  qed
  then show ?case
    using out F1 [OF Cons.prems(6,7)] X1 [OF Cons.prems(6,7)] by simp
qed

text \<open>The last cell whose window contains a pixel decides its final value.\<close>

lemma raster_loop_last_write:
  assumes "rect h w F" "rect h w X" "rect h w nabla" "0 < h"
    and "raster_loop cs dem (NdArray F, NdArray X) nabla = Inr (NdArray Ff, NdArray Xf)"
    and "j < length cs" "array_coords_of dem (cs ! j) = Inr rcj" "in_block h w rcj p q"
    and "\<And>k rc. j < k \<Longrightarrow> k < length cs \<Longrightarrow> array_coords_of dem (cs ! k) = Inr rc
           \<Longrightarrow> \<not> in_block h w rc p q"
  shows "Ff ! p ! q = cell_F_sky dem rcj \<and>
         Xf ! p ! q = compute_downscaling_factor (nabla ! p ! q) (cell_mu dem rcj)"
  using assms
proof (induction cs arbitrary: F X j)
  case Nil
  then show ?case by simp
next
  case (Cons c cs)
  have pq: "p < h" "q < w"
    using in_block_bounds [OF Cons.prems(8)] by simp_all
  obtain rc F1 X1 where rc: "array_coords_of dem c = Inr rc"
    and r1: "rect h w F1" "rect h w X1"
    and run: "raster_loop cs dem (NdArray F1, NdArray X1) nabla = Inr (NdArray Ff, NdArray Xf)"
    and F1: "\<And>p q. p < h \<Longrightarrow> q < w \<Longrightarrow>
       F1 ! p ! q = (if in_block h w rc p q then cell_F_sky dem rc else F ! p ! q)"
    and X1: "\<And>p q. p < h \<Longrightarrow> q < w \<Longrightarrow>
       X1 ! p ! q = (if in_block h w rc p q
                     then compute_downscaling_factor (nabla ! p ! q) (cell_mu dem rc)
                     else X ! p ! q)"
    using raster_loop_step [OF Cons.prems(1-5)] by blast
  show ?case
  proof (cases j)
    case 0
    then have same: "rc = rcj" using rc Cons.prems(7) by simp
    have "Ff ! p ! q = F1 ! p ! q \<and> Xf ! p ! q = X1 ! p ! q"
    proof (rule raster_loop_frame [OF r1 Cons.prems(3,4) run pq])
      fix c' rc' assume c': "c' \<in> set cs" and rc': "array_coords_of dem c' = Inr rc'"
      then obtain k where k: "k < length cs" "cs ! k = c'"
        by (auto simp: in_set_conv_nth)
      then show "\<not> in_block h w rc' p q"
        using Cons.prems(9) [of "Suc k" rc'] 0 rc' by simp
    qed
    then show ?thesis
      using F1 [OF pq] X1 [OF pq] Cons.prems(8) same by simp
  next
    case (Suc j')
    show ?thesis
    proof (rule Cons.IH [OF r1 Cons.prems(3,4) run, of j'])
      show "j' < length cs" using Cons.prems(6) Suc by simp
      show "array_coords_of dem (cs ! j') = Inr rcj" using Cons.prems(7) Suc by simp
      show "in_block h w rcj p q" by (rule Cons.prems(8))
      fix k rc' assume "j' < k" "k < length cs" "array_coords_of dem (cs ! k) = Inr rc'"
      then show "\<not> in_block h w rc' p q"
        using Cons.prems(9) [of "Suc k" rc'] Suc by simp
    qed
  qed
qed

text \<open>When every cell has coordinates and a window with a pixel, the loop ends with arrays.\<close>

lemma raster_loop_total:
  assumes "rect h w F" "rect h w X" "rect h w nabla" "0 < h"
    and "\<And>c. c \<in> set cs \<Longrightarrow> \<exists>rc p q. array_coords_of dem c = Inr rc \<and> in_block h w rc p q"
  shows "\<exists>Ff Xf. raster_loop cs dem (NdArray F, NdArray X) nabla = Inr (NdArray Ff, NdArray Xf)"
  using assms
proof (induction cs arbitrary: F X)
  case Nil
  then show ?case by simp
next
  case (Cons c cs)
  obtain rc p0 q0 where rc: "array_coords_of dem c = Inr rc" and blk: "in_block h w rc p0 q0"
    using Cons.prems(5) [of c] by auto
  let ?F1 = "map (\<lambda>p. map (\<lambda>q. if in_block h w rc p q then cell_F_sky dem rc
                               else F ! p ! q) [0..<w]) [0..<h]"
  let ?X1 = "map (\<lambda>p. map (\<lambda>q. if in_block h w rc p q
                               then compute_downscaling_factor (nabla ! p ! q) (cell_mu dem rc)
                               else X ! p ! q) [0..<w]) [0..<h]"
  have w: "downscaling_parameters_processing_wrapper c dem (NdArray F) (NdArray X) nabla
           = Inr (NdArray ?F1, NdArray ?X1)"
    by (rule wrapper_writes_block [OF Cons.prems(1-4) rc blk])
  have "\<exists>Ff Xf. raster_loop cs dem (NdArray ?F1, NdArray ?X1) nabla
                 = Inr (NdArray Ff, NdArray Xf)"
    by (rule Cons.IH [OF rect_map_upt rect_map_upt Cons.prems(3,4)])
       (use Cons.prems(5) in simp)
  then show ?case by (simp add: w)
qed

section \<open>The second pass as a whole\<close>

lemma raster_pass_unfold:
  assumes "rect h w (band1 dem)" "3 \<le> h" "3 \<le> w"
  obtains nabla F0 X0 where
    "compute_elevation_laplacien (band1 dem) global_delta_x = Inr nabla"
    "rect h w nabla" "rect h w F0" "rect h w X0"
    "\<And>cells. raster_pass dem cells = raster_loop cells dem (NdArray F0, NdArray X0) nabla"
proof -
  let ?nabla = "map (\<lambda>i. map (\<lambda>j. (if 1 \<le> i \<and> i < h - 1 \<and> 1 \<le> j \<and> j < w - 1
                                    then Fin (full_at (band1 dem) laplacian_kernel
                                                (int (i - 1) + 2) (int (j - 1) + 2))
                                         / Fin (global_delta_x ^ 2)
                                    else NaN) * Fin global_delta_x / Fin 4)
                           [0..<w]) [0..<h]"
  let ?F0 = "map (map (\<lambda>_. Fin 1 * NaN)) (band1 dem)"
  have n: "compute_elevation_laplacien (band1 dem) global_delta_x = Inr ?nabla"
    by (rule laplacien_result [OF assms])
  have rn: "rect h w ?nabla" by (rule rect_map_upt)
  have r0: "rect h w ?F0" by (rule rect_map_map [OF assms(1)])
  have "\<And>cells. raster_pass dem cells
                   = raster_loop cells dem (NdArray ?F0, NdArray ?F0) ?nabla"
    by (simp add: raster_pass_def Let_def n)
  then show ?thesis using that [OF n rn r0 r0] by blast
qed

section \<open>The small raster\<close>

lemma ramp_dem_rect: "rect 3 3 (band1 ramp_dem)"
  by (simp add: ramp_dem_def rect_def)

lemma ramp_dem_coords:
  "array_coords_of ramp_dem cell_centre = Inr (1, 1)"
  "array_coords_of ramp_dem cell_low = Inr (63, 1)"
  "array_coords_of ramp_dem cell_far = Inr (200, 1)"
  by (simp_all add: array_coords_of_def ramp_dem_def cell_centre_def cell_low_def cell_far_def)

lemma ramp_dem_blocks:
  "in_block 3 3 (1, 1) p q \<longleftrightarrow> p < 3 \<and> q < 3"
  "in_block 3 3 (63, 1) p q \<longleftrightarrow> 1 \<le> p \<and> p < 3 \<and> q < 3"
  "\<not> in_block 3 3 (200, 1) p q"
  by (simp_all add: in_block_def block_rows_def block_cols_def slice_start_def slice_stop_def
      slice_index_def)

section \<open>The last write to a pixel\<close>

lemma raster_pass_last_write:
  assumes "rect h w (band1 dem)" "3 \<le> h" "3 \<le> w"
    and "\<forall>k<length cells. \<exists>rc p' q'. array_coords_of dem (cells ! k) = Inr rc
                                       \<and> in_block h w rc p' q'"
    and "j < length cells"
    and "array_coords_of dem (cells ! j) = Inr rcj" "in_block h w rcj p q"
    and "\<forall>k rc. j < k \<and> k < length cells \<and> array_coords_of dem (cells ! k) = Inr rc
                 \<longrightarrow> \<not> in_block h w rc p q"
  shows "\<exists>F X nabla. raster_pass dem cells = Inr (NdArray F, NdArray X)
           \<and> compute_elevation_laplacien (band1 dem) global_delta_x = Inr nabla
           \<and> F ! p ! q = cell_F_sky dem rcj
           \<and> X ! p ! q = compute_downscaling_factor (nabla ! p ! q) (cell_mu dem rcj)"
proof -
  obtain nabla F0 X0 where n: "compute_elevation_laplacien (band1 dem) global_delta_x = Inr nabla"
    and r: "rect h w nabla" "rect h w F0" "rect h w X0"
    and pass: "\<And>cells. raster_pass dem cells
                 = raster_loop cells dem (NdArray F0, NdArray X0) nabla"
    using raster_pass_unfold [OF assms(1-3)] by blast
  have h: "0 < h" using assms(2) by simp
  have "\<And>c. c \<in> set cells \<Longrightarrow>
          \<exists>rc p' q'. array_coords_of dem c = Inr rc \<and> in_block h w rc p' q'"
    using assms(4) by (auto simp: in_set_conv_nth)
  then obtain F X where run:
    "raster_loop cells dem (NdArray F0, NdArray X0) nabla = Inr (NdArray F, NdArray X)"
    using raster_loop_total [OF r(2,3,1) h, of cells dem] by blast
  have "F ! p ! q = cell_F_sky dem rcj \<and>
        X ! p ! q = compute_downscaling_factor (nabla ! p ! q) (cell_mu dem rcj)"
    using assms(8)
    by (intro raster_loop_last_write [OF r(2,3,1) h run assms(5,6,7)]) blast
  then show ?thesis
    using run n by (simp add: pass)
qed

lemma floor_half: "\<lfloor>of_int r + (1 / 2 :: real)\<rfloor> = r"
  by linarith

lemma ramp_dem_coords_at: "array_coords_of ramp_dem (cell_at r c) = Inr (r, c)"
  by (simp add: array_coords_of_def ramp_dem_def cell_at_def floor_half)

lemma ramp_dem_block_last_row: "in_block 3 3 (64, 1) p q \<longleftrightarrow> 2 \<le> p \<and> p < 3 \<and> q < 3"
  by (simp add: in_block_def block_rows_def block_cols_def slice_start_def slice_stop_def
      slice_index_def)

section \<open>Values on the small raster\<close>

lemma ramp_3x3_slope:
  "compute_mean_squared_slope [[0, 0, 0], [1, 1, 1], [2, 2, 2]] 20 = Fin (1 / (20 * sqrt 2))"
proof -
  have "[[0, 0, 0], [1, 1, 1], [2, 2, 2]] = map (\<lambda>i. replicate 3 (1 * real i)) [0..<3]"
    by (simp add: numeral_3_eq_3 upt_3)
  moreover have "compute_mean_squared_slope (map (\<lambda>i. replicate 3 (1 * real i)) [0..<3]) 20
             = Fin (\<bar>1\<bar> / (20 * sqrt 2))"
    by (rule ramp_window_slope) simp_all
  ultimately have "compute_mean_squared_slope [[0, 0, 0], [1, 1, 1], [2, 2, 2]] 20
             = Fin (\<bar>1\<bar> / (20 * sqrt 2))"
    by (simp only:)
  then show ?thesis by simp
qed

lemma ramp_dem_std: "np_std (band1 ramp_dem) = Fin (sqrt (2 / 3))"
  by (simp add: np_std_def ramp_dem_def Let_def)

lemma ramp_dem_window_centre: "subset_array (band1 ramp_dem) (1, 1) = band1 ramp_dem"
  by (simp add: subset_array_def slice2_def py_slice_def block_rows_def block_cols_def
      slice_start_def slice_stop_def slice_index_def ramp_dem_def)

lemma ramp_dem_mu_centre: "cell_mu ramp_dem (1, 1) = Fin (1 / (20 * sqrt 2))"
  unfolding cell_mu_def ramp_dem_window_centre global_delta_x_def
  by (simp add: ramp_dem_def ramp_3x3_slope)

lemma ramp_dem_xi_centre: "cell_xi ramp_dem (1, 1) = Fin (sqrt (2 / 3) * sqrt 2 * (20 * sqrt 2))"
  unfolding cell_xi_def ramp_dem_mu_centre ramp_dem_std compute_typical_width_def
  by simp

lemma ramp_dem_F_sky_centre:
  "\<exists>f. cell_F_sky ramp_dem (1, 1) = Fin f \<and> 0 < f"
proof -
  have m: "(0::real) < 1 / (20 * sqrt 2)" by simp
  have x: "(0::real) < sqrt (2 / 3) * sqrt 2 * (20 * sqrt 2)" by simp
  have L: "(0::real) < 2500" by simp
  have "cell_F_sky ramp_dem (1, 1) =
        Fin (spec_sky_view_factor (1 / (20 * sqrt 2)) (sqrt (2 / 3) * sqrt 2 * (20 * sqrt 2)) 2500)"
    unfolding cell_F_sky_def ramp_dem_mu_centre ramp_dem_xi_centre global_L_def
    by (rule sky_view_factor_finite [OF less_imp_le [OF m] x L])
  then show ?thesis
    using spec_sky_view_factor_bounds(1) [OF m x L] by blast
qed

section \<open>Windows of the first pass\<close>

lemma divide_NaN: "x / NaN = NaN"
  by (cases x) simp_all

lemma minus_NaN: "x - NaN = NaN"
  by (cases x) (simp_all add: minus_npfloat_def)

lemma plus_NaN: "x + NaN = NaN"
  by (cases x) simp_all

lemma times_NaN: "x * NaN = NaN"
  by (cases x) simp_all

lemma typical_width_NaN: "compute_typical_width NaN s = NaN"
  by (simp add: compute_typical_width_def divide_NaN)

lemma sky_view_factor_NaN: "compute_sky_view_factor NaN x L = NaN"
  by (simp add: compute_sky_view_factor_def Let_def times_NaN plus_NaN divide_NaN minus_NaN)

lemma slice2_is_rect:
  assumes "rect h w a"
  shows "rect (slice_stop h rs - slice_start h rs) (slice_stop w cs - slice_start w cs)
           (slice2 rs cs a)"
  unfolding slice2_rect [OF assms] by (rule rect_map_upt)

lemma sum_list_concat_nonneg:
  fixes f :: "nat \<Rightarrow> nat \<Rightarrow> real"
  shows "(\<And>i j. 0 \<le> f i j) \<Longrightarrow>
         0 \<le> sum_list (concat (map (\<lambda>i. map (f i) [0..<m]) [0..<n]))"
  by (rule sum_list_nonneg) auto

lemma mean_squared_slope_finite:
  assumes r: "rect h w a" and h: "2 \<le> h" and w: "2 \<le> w" and dx: "0 < delta_x"
  shows "\<exists>m. compute_mean_squared_slope a delta_x = Fin m \<and> 0 \<le> m"
proof -
  let ?S = "sum_list (concat (slope_squares h w a))"
  let ?n = "real ((h - Suc 0) * (w - Suc 0))"
  have S: "0 \<le> ?S"
    unfolding slope_squares_def by (rule sum_list_concat_nonneg) simp
  have n: "?n \<noteq> 0" "0 < ?n" using h w by simp_all
  have len: "length (concat (slope_squares h w a)) = (h - Suc 0) * (w - Suc 0)"
    unfolding slope_squares_def by (rule length_concat_grid)
  have mean: "np_mean (slope_squares h w a) = Fin (?S / ?n)"
    unfolding np_mean_def len by (rule Fin_divide [OF n(1)])
  have q: "0 \<le> ?S / ?n" using S n(2) by simp
  have nz: "delta_x * sqrt 2 \<noteq> 0" using dx by simp
  have "compute_mean_squared_slope a delta_x = Fin (sqrt (?S / ?n) / (delta_x * sqrt 2))"
    unfolding mean_squared_slope_rect [OF r] mean
    using q by (simp only: np_sqrt.simps if_True Fin_divide [OF nz])
  moreover have "0 \<le> sqrt (?S / ?n) / (delta_x * sqrt 2)"
    using q dx by simp
  ultimately show ?thesis by blast
qed

lemma mean_squared_slope_degenerate:
  assumes r: "rect h w a" and small: "h \<le> 1 \<or> w \<le> 1"
  shows "compute_mean_squared_slope a delta_x = NaN"
proof -
  have "length (concat (slope_squares h w a)) = (h - Suc 0) * (w - Suc 0)"
    unfolding slope_squares_def by (rule length_concat_grid)
  then have e: "concat (slope_squares h w a) = []"
    using small by auto
  have "np_mean (slope_squares h w a) = Fin 0 / Fin 0"
    by (simp only: np_mean_def e list.size sum_list.Nil of_nat_0)
  then have "np_mean (slope_squares h w a) = NaN"
    by simp
  then show ?thesis
    unfolding mean_squared_slope_rect [OF r] by simp
qed

lemma attribute_wrapper_attrs:
  assumes "array_coords_of dem row = Inr rc"
  shows "attrs (sky_view_factor_processing_wrapper dem row) ''mu'' =
           Some (compute_mean_squared_slope
                   (slice2 (Some (fst rc - 12), Some (fst rc + 13))
                           (Some (snd rc - 12), Some (snd rc + 13)) (band1 dem))
                   global_delta_x)"
    and "attrs (sky_view_factor_processing_wrapper dem row) ''xi'' =
           Some (compute_typical_width
                   (compute_mean_squared_slope
                     (slice2 (Some (fst rc - 12), Some (fst rc + 13))
                             (Some (snd rc - 12), Some (snd rc + 13)) (band1 dem))
                     global_delta_x)
                   (np_std (band1 dem)))"
    and "attrs (sky_view_factor_processing_wrapper dem row) ''F_sky'' =
           Some (compute_sky_view_factor
                   (compute_mean_squared_slope
                     (slice2 (Some (fst rc - 12), Some (fst rc + 13))
                             (Some (snd rc - 12), Some (snd rc + 13)) (band1 dem))
                     global_delta_x)
                   (compute_typical_width
                     (compute_mean_squared_slope
                       (slice2 (Some (fst rc - 12), Some (fst rc + 13))
                               (Some (snd rc - 12), Some (snd rc + 13)) (band1 dem))
                       global_delta_x)
                     (np_std (band1 dem)))
                   global_L)"
  using assms
  by (simp_all add: sky_view_factor_processing_wrapper_def array_coords_of_def Let_def)

lemma window_25_inside:
  assumes "12 \<le> r" "r < n"
  shows "slice_stop n (Some (int r - 12), Some (int r + 13))
         - slice_start n (Some (int r - 12), Some (int r + 13)) = min 25 (n + 12 - r)"
proof -
  have "nat (int r - 12) = r - 12" "nat (int r + 13) = r + 13"
    using assms by simp_all
  then have "slice_start n (Some (int r - 12), Some (int r + 13)) = r - 12"
    "slice_stop n (Some (int r - 12), Some (int r + 13)) = min n (r + 13)"
    using assms by (simp_all add: slice_start_def slice_stop_def slice_index_def)
  then show ?thesis using assms by (simp only:)
qed

lemma window_25_wraps:
  assumes "r < 12" "25 \<le> n"
  shows "slice_stop n (Some (int r - 12), Some (int r + 13))
         - slice_start n (Some (int r - 12), Some (int r + 13)) = 0"
proof -
  have "nat (max 0 (int n + (int r - 12))) = n + r - 12" "nat (int r + 13) = r + 13"
    using assms by simp_all
  then have "slice_start n (Some (int r - 12), Some (int r + 13)) = n + r - 12"
    "slice_stop n (Some (int r - 12), Some (int r + 13)) = min n (r + 13)"
    using assms by (simp_all add: slice_start_def slice_stop_def slice_index_def)
  then show ?thesis using assms by (simp only:)
qed

section \<open>Windows that reach past the raster\<close>

lemma in_block_inside:
  assumes "62 \<le> r" "r < h" "62 \<le> c" "c < w"
  shows "in_block h w (int r, int c) p q \<longleftrightarrow>
         r - 62 \<le> p \<and> p < min h (r + 63) \<and> c - 62 \<le> q \<and> q < min w (c + 63)"
proof -
  have "nat (int r - 62) = r - 62" "nat (int r + 63) = r + 63"
       "nat (int c - 62) = c - 62" "nat (int c + 63) = c + 63"
    using assms by simp_all
  then have "slice_start h (block_rows (int r, int c)) = r - 62"
    "slice_stop h (block_rows (int r, int c)) = min h (r + 63)"
    "slice_start w (block_cols (int r, int c)) = c - 62"
    "slice_stop w (block_cols (int r, int c)) = min w (c + 63)"
    using assms
    by (simp_all add: block_rows_def block_cols_def slice_start_def slice_stop_def
        slice_index_def)
  then show ?thesis
    by (simp only: in_block_def)
qed

lemma raster_wrapper_cut_block:
  assumes F: "rect h w F" and X: "rect h w X" and N: "rect h w nabla"
    and rc: "array_coords_of dem row = Inr (int r, int c)"
    and r: "62 \<le> r" "r < h" and c: "62 \<le> c" "c < w"
  shows "\<exists>F' X'. downscaling_parameters_processing_wrapper row dem (NdArray F) (NdArray X) nabla
                   = Inr (NdArray F', NdArray X')
           \<and> (\<forall>p q. r - 62 \<le> p \<and> p < min h (r + 63) \<and> c - 62 \<le> q \<and> q < min w (c + 63)
                  \<longrightarrow> F' ! p ! q = cell_F_sky dem (int r, int c)
                      \<and> X' ! p ! q = compute_downscaling_factor (nabla ! p ! q)
                                         (cell_mu dem (int r, int c)))"
proof -
  note blk = in_block_inside [OF r c]
  have h: "0 < h" using r by simp
  have here: "in_block h w (int r, int c) r c"
    using r c by (simp add: blk)
  let ?F' = "map (\<lambda>p. map (\<lambda>q. if in_block h w (int r, int c) p q
                               then cell_F_sky dem (int r, int c)
                               else F ! p ! q) [0..<w]) [0..<h]"
  let ?X' = "map (\<lambda>p. map (\<lambda>q. if in_block h w (int r, int c) p q
                               then compute_downscaling_factor (nabla ! p ! q)
                                      (cell_mu dem (int r, int c))
                               else X ! p ! q) [0..<w]) [0..<h]"
  have run: "downscaling_parameters_processing_wrapper row dem (NdArray F) (NdArray X) nabla
             = Inr (NdArray ?F', NdArray ?X')"
    by (rule wrapper_writes_block [OF F X N h rc here])
  have "\<forall>p q. r - 62 \<le> p \<and> p < min h (r + 63) \<and> c - 62 \<le> q \<and> q < min w (c + 63)
          \<longrightarrow> ?F' ! p ! q = cell_F_sky dem (int r, int c)
              \<and> ?X' ! p ! q = compute_downscaling_factor (nabla ! p ! q)
                                  (cell_mu dem (int r, int c))"
  proof (intro allI impI)
    fix p q
    assume pq: "r - 62 \<le> p \<and> p < min h (r + 63) \<and> c - 62 \<le> q \<and> q < min w (c + 63)"
    then have "in_block h w (int r, int c) p q" by (simp only: blk)
    moreover have "p < h" "q < w" using pq by simp_all
    ultimately show "?F' ! p ! q = cell_F_sky dem (int r, int c)
              \<and> ?X' ! p ! q = compute_downscaling_factor (nabla ! p ! q)
                                  (cell_mu dem (int r, int c))"
      by simp
  qed
  then show ?thesis using run by blast
qed

text \<open>
  The notebook has no bounds check, and a numpy slice never raises. In the first pass, on
  a raster of \<open>h\<close> rows and \<open>w\<close> columns, a cell whose centroid maps to row \<open>r\<close> and
  column \<open>c\<close> with \<open>12 \<le> r < h\<close> and \<open>12 \<le> c < w\<close>, also when it is within 12 cells of
  the last row or column, gets a finite \<open>mu\<close> computed over the window that the slice
  cuts off at the edge of the raster, of \<open>min 25 (h + 12 - r)\<close> rows and
  \<open>min 25 (w + 12 - c)\<close> columns. A cell with \<open>r < 12\<close> on a raster of at least 25 rows,
  or with \<open>c < 12\<close> on a raster of at least 25 columns, gets an empty window, because the
  negative start of the slice counts from the far edge, and its three attributes are NaN.
  In the second pass a cell with \<open>62 \<le> r < h\<close> and \<open>62 \<le> c < w\<close>, also when it is
  within 62 cells of the last row or column, is not skipped either: the wrapper writes the
  values it computes over the window cut off at the edge into the block cut off at the
  edge, rows \<open>r - 62\<close> to \<open>min h (r + 63) - 1\<close> and columns \<open>c - 62\<close> to
  \<open>min w (c + 63) - 1\<close>.
\<close>

lemma window_cut_at_edge:
  assumes "rect h w (band1 dem)" and "array_coords_of dem row = Inr (int r, int c)"
  shows "(12 \<le> r \<and> r < h \<and> 12 \<le> c \<and> c < w \<longrightarrow>
            rect (min 25 (h + 12 - r)) (min 25 (w + 12 - c))
              (slice2 (Some (int r - 12), Some (int r + 13))
                      (Some (int c - 12), Some (int c + 13)) (band1 dem))
            \<and> (\<exists>m. attrs (sky_view_factor_processing_wrapper dem row) ''mu'' = Some (Fin m)
                    \<and> 0 \<le> m
                    \<and> compute_mean_squared_slope
                         (slice2 (Some (int r - 12), Some (int r + 13))
                                 (Some (int c - 12), Some (int c + 13)) (band1 dem))
                         global_delta_x = Fin m))
         \<and> ((r < 12 \<and> 25 \<le> h) \<or> (c < 12 \<and> 25 \<le> w) \<longrightarrow>
              attrs (sky_view_factor_processing_wrapper dem row) ''mu'' = Some NaN
              \<and> attrs (sky_view_factor_processing_wrapper dem row) ''xi'' = Some NaN
              \<and> attrs (sky_view_factor_processing_wrapper dem row) ''F_sky'' = Some NaN)
         \<and> (62 \<le> r \<and> r < h \<and> 62 \<le> c \<and> c < w
              \<and> rect h w F \<and> rect h w X \<and> rect h w nabla \<longrightarrow>
              (\<exists>F' X'. downscaling_parameters_processing_wrapper row dem (NdArray F) (NdArray X)
                          nabla = Inr (NdArray F', NdArray X')
                 \<and> (\<forall>p q. r - 62 \<le> p \<and> p < min h (r + 63)
                            \<and> c - 62 \<le> q \<and> q < min w (c + 63)
                        \<longrightarrow> F' ! p ! q = cell_F_sky dem (int r, int c)
                            \<and> X' ! p ! q = compute_downscaling_factor (nabla ! p ! q)
                                               (cell_mu dem (int r, int c)))))"
proof (intro conjI impI)
  let ?rs = "(Some (int r - 12), Some (int r + 13))"
  let ?cs = "(Some (int c - 12), Some (int c + 13))"
  let ?win = "slice2 ?rs ?cs (band1 dem)"
  let ?ch = "slice_stop h ?rs - slice_start h ?rs"
  let ?cw = "slice_stop w ?cs - slice_start w ?cs"
  have win: "rect ?ch ?cw ?win"
    by (rule slice2_is_rect [OF assms(1)])
  note at = attribute_wrapper_attrs [OF assms(2), simplified]
  {
    assume in_grid: "12 \<le> r \<and> r < h \<and> 12 \<le> c \<and> c < w"
    then have ch: "?ch = min 25 (h + 12 - r)" and cw: "?cw = min 25 (w + 12 - c)"
      by (simp_all add: window_25_inside)
    show "rect (min 25 (h + 12 - r)) (min 25 (w + 12 - c)) ?win"
      using win by (simp only: ch cw)
    have "2 \<le> ?ch" "2 \<le> ?cw"
      using in_grid unfolding ch cw by auto
    then obtain m where "compute_mean_squared_slope ?win global_delta_x = Fin m" "0 \<le> m"
      using mean_squared_slope_finite [OF win, of global_delta_x]
      by (auto simp: global_delta_x_def)
    then show "\<exists>m. attrs (sky_view_factor_processing_wrapper dem row) ''mu'' = Some (Fin m)
                    \<and> 0 \<le> m \<and> compute_mean_squared_slope ?win global_delta_x = Fin m"
      using at(1) by simp
  }
  {
    assume "(r < 12 \<and> 25 \<le> h) \<or> (c < 12 \<and> 25 \<le> w)"
    then have "?ch \<le> 1 \<or> ?cw \<le> 1"
      using window_25_wraps [of r h] window_25_wraps [of c w] by auto
    then have mu: "compute_mean_squared_slope ?win global_delta_x = NaN"
      by (rule mean_squared_slope_degenerate [OF win])
    show "attrs (sky_view_factor_processing_wrapper dem row) ''mu'' = Some NaN"
      using at(1) mu by simp
    show "attrs (sky_view_factor_processing_wrapper dem row) ''xi'' = Some NaN"
      using at(2) mu by (simp add: typical_width_NaN)
    show "attrs (sky_view_factor_processing_wrapper dem row) ''F_sky'' = Some NaN"
      using at(3) mu by (simp add: sky_view_factor_NaN)
  }
  {
    assume "62 \<le> r \<and> r < h \<and> 62 \<le> c \<and> c < w
            \<and> rect h w F \<and> rect h w X \<and> rect h w nabla"
    then show "\<exists>F' X'. downscaling_parameters_processing_wrapper row dem (NdArray F) (NdArray X)
                          nabla = Inr (NdArray F', NdArray X')
                 \<and> (\<forall>p q. r - 62 \<le> p \<and> p < min h (r + 63)
                            \<and> c - 62 \<le> q \<and> q < min w (c + 63)
                        \<longrightarrow> F' ! p ! q = cell_F_sky dem (int r, int c)
                            \<and> X' ! p ! q = compute_downscaling_factor (nabla ! p ! q)
                                               (cell_mu dem (int r, int c)))"
      using raster_wrapper_cut_block [OF _ _ _ assms(2), of h w F X nabla] by blast
  }
qed

section \<open>A raster with two slopes\<close>

lemma bent_dem_rect: "rect 249 135 (band1 bent_dem)"
  by (auto simp: bent_dem_def rect_def)

lemma bent_dem_coords: "array_coords_of bent_dem (cell_at r c) = Inr (r, c)"
  by (simp add: array_coords_of_def bent_dem_def cell_at_def floor_half)

lemma bent_dem_nth: "i < 249 \<Longrightarrow> j < 135 \<Longrightarrow> band1 bent_dem ! i ! j = bent i"
  by (simp add: bent_dem_def)

lemma bent_rows_slope:
  assumes m: "2 \<le> m" and n: "2 \<le> n" and r: "r0 + m \<le> 249" and c: "c0 + n \<le> 135"
    and s: "0 \<le> s"
    and step: "\<And>i. r0 \<le> i \<Longrightarrow> Suc i < r0 + m \<Longrightarrow> bent (Suc i) - bent i = s"
  shows "compute_mean_squared_slope
           (map (\<lambda>k. map (\<lambda>l. band1 bent_dem ! (r0 + k) ! (c0 + l)) [0..<n]) [0..<m]) 20
         = Fin (s / (20 * sqrt 2))"
proof -
  let ?win = "map (\<lambda>k. map (\<lambda>l. band1 bent_dem ! (r0 + k) ! (c0 + l)) [0..<n]) [0..<m]"
  have "compute_mean_squared_slope ?win 20 = Fin (sqrt (s * s) / (20 * sqrt 2))"
  proof (rule mean_squared_slope_const_squares [OF rect_map_upt m n])
    fix i j assume ij: "Suc i < m" "Suc j < n"
    have idx: "r0 + Suc i < 249" "r0 + i < 249" "c0 + j < 135" "c0 + Suc j < 135"
      using ij r c by simp_all
    have "?win ! Suc i ! j = band1 bent_dem ! (r0 + Suc i) ! (c0 + j)"
      "?win ! i ! j = band1 bent_dem ! (r0 + i) ! (c0 + j)"
      "?win ! i ! Suc j = band1 bent_dem ! (r0 + i) ! (c0 + Suc j)"
      using ij by simp_all
    then have a: "?win ! Suc i ! j = bent (Suc (r0 + i))" "?win ! i ! j = bent (r0 + i)"
      "?win ! i ! Suc j = bent (r0 + i)"
      using bent_dem_nth [OF idx(1,3)] bent_dem_nth [OF idx(2,3)] bent_dem_nth [OF idx(2,4)]
      by simp_all
    have "bent (Suc (r0 + i)) - bent (r0 + i) = s"
      using ij by (intro step) simp_all
    then show "(?win ! Suc i ! j - ?win ! i ! j) * (?win ! Suc i ! j - ?win ! i ! j)
             + (?win ! i ! Suc j - ?win ! i ! j) * (?win ! i ! Suc j - ?win ! i ! j) = s * s"
      unfolding a by simp
  qed (use s in simp_all)
  then show ?thesis using s by simp
qed

lemma bent_steps:
  "Suc i \<le> 124 \<Longrightarrow> bent (Suc i) - bent i = 1"
  "124 \<le> i \<Longrightarrow> bent (Suc i) - bent i = 2"
  by (auto simp: bent_def)

lemma sum_list_nonneg_member:
  fixes f :: "'a \<Rightarrow> real"
  assumes "\<And>v. v \<in> set xs \<Longrightarrow> 0 \<le> f v" "x \<in> set xs"
  shows "f x \<le> sum_list (map f xs)"
  using assms
proof (induction xs)
  case Nil then show ?case by simp
next
  case (Cons y ys)
  have nn: "0 \<le> sum_list (map f ys)"
    by (rule sum_list_nonneg) (use Cons.prems(1) in auto)
  show ?case
  proof (cases "x = y")
    case True then show ?thesis using nn by simp
  next
    case False
    then have "f x \<le> sum_list (map f ys)"
      using Cons by auto
    moreover have "0 \<le> f y" using Cons.prems(1) by simp
    ultimately show ?thesis by simp
  qed
qed

lemma np_std_pos:
  assumes "x \<in> set (concat a)" "y \<in> set (concat a)" "x \<noteq> y"
  shows "\<exists>s. np_std a = Fin s \<and> 0 < s"
proof -
  let ?xs = "concat a"
  let ?n = "real (length ?xs)"
  let ?m = "sum_list ?xs / ?n"
  let ?S = "\<Sum>v\<leftarrow>?xs. \<bar>v - ?m\<bar> ^ 2"
  have "0 < length ?xs" using assms(1) by (rule length_pos_if_in_set)
  then have n: "0 < ?n" by (simp only: of_nat_0_less_iff)
  have "x \<noteq> ?m \<or> y \<noteq> ?m" using assms(3) by auto
  then obtain v where v: "v \<in> set ?xs" "v \<noteq> ?m" using assms(1,2) by blast
  have "\<bar>v - ?m\<bar> ^ 2 \<le> ?S"
    by (rule sum_list_nonneg_member [where f = "\<lambda>v. \<bar>v - ?m\<bar> ^ 2"]) (simp, rule v(1))
  moreover have "0 < \<bar>v - ?m\<bar> ^ 2" using v(2) by simp
  ultimately have S: "0 < ?S" by linarith
  have q: "0 < ?S / ?n" using S n by simp
  have nz: "?n \<noteq> 0" using n by simp
  have "np_std a = np_sqrt (Fin ?S / Fin ?n)"
    by (simp only: np_std_def Let_def)
  also have "\<dots> = Fin (sqrt (?S / ?n))"
    unfolding Fin_divide [OF nz] using q by (simp only: np_sqrt.simps less_imp_le if_True)
  finally show ?thesis using q by (intro exI [of _ "sqrt (?S / ?n)"]) simp
qed

lemma bent_dem_std: "\<exists>s. np_std (band1 bent_dem) = Fin s \<and> 0 < s"
proof (rule np_std_pos)
  have "bent 0 \<in> set (band1 bent_dem ! 0)" "band1 bent_dem ! 0 \<in> set (band1 bent_dem)"
    "bent 1 \<in> set (band1 bent_dem ! 1)" "band1 bent_dem ! 1 \<in> set (band1 bent_dem)"
    by (simp_all add: bent_dem_def)
  then show "bent 0 \<in> set (concat (band1 bent_dem))" "bent 1 \<in> set (concat (band1 bent_dem))"
    by auto
  show "bent 0 \<noteq> bent 1" by (simp add: bent_def)
qed

lemma width_and_sky_view_positive:
  assumes "np_std a = Fin s" "0 < s" "0 < m"
  shows "\<exists>x f. compute_typical_width (Fin m) (np_std a) = Fin x \<and> 0 < x
               \<and> compute_sky_view_factor (Fin m)
                    (compute_typical_width (Fin m) (np_std a)) global_L = Fin f \<and> 0 < f"
proof -
  let ?x = "s * sqrt 2 / m"
  have x: "0 < ?x" using assms(2,3) by simp
  have L: "(0::real) < global_L" by (simp add: global_L_def)
  have w: "compute_typical_width (Fin m) (np_std a) = Fin ?x"
    using assms(3) by (simp add: compute_typical_width_def assms(1))
  have "compute_sky_view_factor (Fin m) (Fin ?x) global_L
        = Fin (spec_sky_view_factor m ?x global_L)"
    by (rule sky_view_factor_finite [OF less_imp_le [OF assms(3)] x L])
  moreover have "0 < spec_sky_view_factor m ?x global_L"
    by (rule spec_sky_view_factor_bounds(1) [OF assms(3) x L])
  ultimately show ?thesis
    unfolding w using x by blast
qed

lemma bent_dem_nabla:
  assumes "compute_elevation_laplacien (band1 bent_dem) global_delta_x = Inr nabla"
  shows "nabla ! 186 ! 133 = Fin 0"
proof -
  have dx: "0 < global_delta_x" by (simp add: global_delta_x_def)
  have h: "(3::nat) \<le> 249" "(3::nat) \<le> 135" by simp_all
  show ?thesis
    using laplacien_interior_pixel [OF bent_dem_rect h dx assms, of 186 133]
    by (simp add: bent_dem_nth bent_def global_delta_x_def)
qed

lemma bent_dem_window_bottom:
  "slice2 (Some 228, Some 253) (Some 55, Some 80) (band1 bent_dem)
   = map (\<lambda>k. map (\<lambda>l. band1 bent_dem ! (228 + k) ! (55 + l)) [0..<25]) [0..<21]"
  unfolding slice2_rect [OF bent_dem_rect]
  by (simp add: slice_start_def slice_stop_def slice_index_def)

lemma bent_dem_window_top:
  "slice2 (Some (- 7), Some 18) (Some 55, Some 80) (band1 bent_dem) = []"
  unfolding slice2_rect [OF bent_dem_rect]
  by (simp add: slice_start_def slice_stop_def slice_index_def)

lemma bent_dem_window_right:
  "subset_array (band1 bent_dem) (186, 100)
   = map (\<lambda>k. map (\<lambda>l. band1 bent_dem ! (124 + k) ! (38 + l)) [0..<97]) [0..<125]"
  unfolding subset_array_rect [OF bent_dem_rect]
  by (simp add: block_rows_def block_cols_def slice_start_def slice_stop_def slice_index_def)

lemma bent_dem_mu_bottom:
  "compute_mean_squared_slope
     (slice2 (Some 228, Some 253) (Some 55, Some 80) (band1 bent_dem)) global_delta_x
   = Fin (2 / (20 * sqrt 2))"
  unfolding bent_dem_window_bottom global_delta_x_def
  by (rule bent_rows_slope) (simp_all add: bent_steps)

lemma bent_dem_mu_right: "cell_mu bent_dem (186, 100) = Fin (2 / (20 * sqrt 2))"
  unfolding cell_mu_def bent_dem_window_right global_delta_x_def
  by (rule bent_rows_slope) (simp_all add: bent_steps)

lemma bent_dem_block_right: "in_block 249 135 (186, 100) 186 133"
  using in_block_inside [of 186 249 100 135 186 133] by simp

lemma raster_pass_no_cells:
  assumes "rect h w (band1 dem)" "3 \<le> h" "3 \<le> w" "p < h" "q < w"
  shows "F_pixel (raster_pass dem []) p q = Some NaN"
    and "X_pixel (raster_pass dem []) p q = Some NaN"
proof -
  obtain nabla where n: "compute_elevation_laplacien (band1 dem) global_delta_x = Inr nabla"
    by (rule raster_pass_unfold [OF assms(1-3)])
  have len: "p < length (band1 dem)" "q < length (band1 dem ! p)"
    using assms(1,4,5) by (simp_all add: rect_def)
  have run: "raster_pass dem [] = Inr (NdArray (map (map (\<lambda>_. Fin 1 * NaN)) (band1 dem)),
                                       NdArray (map (map (\<lambda>_. Fin 1 * NaN)) (band1 dem)))"
    by (simp add: raster_pass_def Let_def n)
  show "F_pixel (raster_pass dem []) p q = Some NaN"
    unfolding run using len by (simp add: F_pixel_def)
  show "X_pixel (raster_pass dem []) p q = Some NaN"
    unfolding run using len by (simp add: X_pixel_def)
qed

section \<open>Claim on windows that reach past the raster\<close>

text \<open>
  Claim C3 asks that a cell whose window reaches past the raster is rejected and skipped,
  and that no statistics are computed over a cut or wrapped window. The code does
  otherwise, against the comment of the first wrapper and the docstring of
  \<open>subset_array\<close>, which both promise a window of fixed size around the pixel. On the
  raster of 249 rows and 135 columns:
  \<^item> first pass, cell at row 240 and column 67, 8 rows from the last row: the window is
    cut to 21 rows of 25 columns, and the three attributes are numbers computed over it,
    with \<open>mu = 2 / (20 sqrt 2)\<close>;
  \<^item> first pass, cell at row 5 and column 67: the start \<open>-7\<close> of the row slice counts from
    the last row, the window is empty, and \<open>mu\<close> is NaN without any exception;
  \<^item> second pass, cell at row 186 and column 100, 34 columns from the last column: the
    window is cut to 125 rows of 97 columns, and the pixel \<open>(186, 133)\<close>, which is NaN in
    both rasters before the cell is processed, holds the values of the cell afterwards.
\<close>

theorem C3_edge_cell_not_rejected:
  "nrows (slice2 (Some (240 - 12), Some (240 + 13)) (Some (67 - 12), Some (67 + 13))
            (band1 bent_dem)) = 21
   \<and> ncols (slice2 (Some (240 - 12), Some (240 + 13)) (Some (67 - 12), Some (67 + 13))
              (band1 bent_dem)) = 25
   \<and> attrs (sky_view_factor_processing_wrapper bent_dem (cell_at 240 67)) ''mu''
       = Some (Fin (2 / (20 * sqrt 2)))
   \<and> (\<exists>x f. attrs (sky_view_factor_processing_wrapper bent_dem (cell_at 240 67)) ''xi''
                = Some (Fin x) \<and> 0 < x
              \<and> attrs (sky_view_factor_processing_wrapper bent_dem (cell_at 240 67)) ''F_sky''
                = Some (Fin f) \<and> 0 < f)
   \<and> slice2 (Some (5 - 12), Some (5 + 13)) (Some (67 - 12), Some (67 + 13)) (band1 bent_dem)
       = []
   \<and> attrs (sky_view_factor_processing_wrapper bent_dem (cell_at 5 67)) ''mu'' = Some NaN
   \<and> nrows (subset_array (band1 bent_dem) (186, 100)) = 125
   \<and> ncols (subset_array (band1 bent_dem) (186, 100)) = 97
   \<and> F_pixel (raster_pass bent_dem []) 186 133 = Some NaN
   \<and> X_pixel (raster_pass bent_dem []) 186 133 = Some NaN
   \<and> (\<exists>f. F_pixel (raster_pass bent_dem [cell_at 186 100]) 186 133 = Some (Fin f) \<and> 0 < f)
   \<and> X_pixel (raster_pass bent_dem [cell_at 186 100]) 186 133
       = Some (Fin (spec_downscaling_factor 0 (2 / (20 * sqrt 2))))"
proof -
  let ?low = "sky_view_factor_processing_wrapper bent_dem (cell_at 240 67)"
  let ?up = "sky_view_factor_processing_wrapper bent_dem (cell_at 5 67)"
  have m: "(0::real) < 2 / (20 * sqrt 2)" by simp
  obtain s where s: "np_std (band1 bent_dem) = Fin s" "0 < s"
    using bent_dem_std by blast
  note pos = width_and_sky_view_positive [OF s m]
  have "rect 21 25 (slice2 (Some 228, Some 253) (Some 55, Some 80) (band1 bent_dem))"
    unfolding bent_dem_window_bottom by (rule rect_map_upt)
  then have shape_bottom:
    "nrows (slice2 (Some 228, Some 253) (Some 55, Some 80) (band1 bent_dem)) = 21"
    "ncols (slice2 (Some 228, Some 253) (Some 55, Some 80) (band1 bent_dem)) = 25"
    by (simp_all add: rect_nrows rect_ncols)
  note at = attribute_wrapper_attrs [OF bent_dem_coords [of 240 67], simplified]
  have mu_bottom: "attrs ?low ''mu'' = Some (Fin (2 / (20 * sqrt 2)))"
    unfolding at(1) bent_dem_mu_bottom by (rule refl)
  have rest_bottom: "\<exists>x f. attrs ?low ''xi'' = Some (Fin x) \<and> 0 < x
                         \<and> attrs ?low ''F_sky'' = Some (Fin f) \<and> 0 < f"
    unfolding at(2,3) bent_dem_mu_bottom using pos by simp
  have "compute_mean_squared_slope [] global_delta_x = NaN"
    by (rule mean_squared_slope_degenerate [of 0 0]) (simp_all add: rect_def)
  then have mu_top: "attrs ?up ''mu'' = Some NaN"
    using attribute_wrapper_attrs(1) [OF bent_dem_coords [of 5 67]]
    by (simp add: bent_dem_window_top)
  have "rect 125 97 (subset_array (band1 bent_dem) (186, 100))"
    unfolding bent_dem_window_right by (rule rect_map_upt)
  then have shape_right: "nrows (subset_array (band1 bent_dem) (186, 100)) = 125"
    "ncols (subset_array (band1 bent_dem) (186, 100)) = 97"
    by (simp_all add: rect_nrows rect_ncols)
  have h: "(3::nat) \<le> 249" "(3::nat) \<le> 135" by simp_all
  note empty_run = raster_pass_no_cells [OF bent_dem_rect h, of 186 133, simplified]
  have ok: "\<forall>k<length [cell_at 186 100].
              \<exists>rc p' q'. array_coords_of bent_dem ([cell_at 186 100] ! k) = Inr rc
                         \<and> in_block 249 135 rc p' q'"
    using bent_dem_block_right by (auto simp: bent_dem_coords)
  have last: "\<forall>k rc. 0 < k \<and> k < length [cell_at 186 100]
                 \<and> array_coords_of bent_dem ([cell_at 186 100] ! k) = Inr rc
                 \<longrightarrow> \<not> in_block 249 135 rc 186 133"
    by simp
  obtain F X nabla where run: "raster_pass bent_dem [cell_at 186 100] = Inr (NdArray F, NdArray X)"
    and n: "compute_elevation_laplacien (band1 bent_dem) global_delta_x = Inr nabla"
    and Fv: "F ! 186 ! 133 = cell_F_sky bent_dem (186, 100)"
    and Xv: "X ! 186 ! 133 = compute_downscaling_factor (nabla ! 186 ! 133)
                                 (cell_mu bent_dem (186, 100))"
    using raster_pass_last_write [OF bent_dem_rect h ok _ _ bent_dem_block_right last]
    by (auto simp: bent_dem_coords)
  have "\<exists>f. cell_F_sky bent_dem (186, 100) = Fin f \<and> 0 < f"
    unfolding cell_F_sky_def cell_xi_def bent_dem_mu_right using pos by blast
  then have F_after: "\<exists>f. F_pixel (raster_pass bent_dem [cell_at 186 100]) 186 133 = Some (Fin f)
                           \<and> 0 < f"
    by (simp add: run F_pixel_def Fv)
  have "X ! 186 ! 133 = Fin (spec_downscaling_factor 0 (2 / (20 * sqrt 2)))"
    unfolding Xv bent_dem_mu_right bent_dem_nabla [OF n]
    by (rule downscaling_factor_finite) simp
  then have X_after: "X_pixel (raster_pass bent_dem [cell_at 186 100]) 186 133
                      = Some (Fin (spec_downscaling_factor 0 (2 / (20 * sqrt 2))))"
    by (simp add: run X_pixel_def)
  have win_up: "slice2 (Some (5 - 12), Some (5 + 13)) (Some (67 - 12), Some (67 + 13))
               (band1 bent_dem) = []"
    using bent_dem_window_top by simp
  show ?thesis
    using shape_bottom mu_bottom rest_bottom win_up mu_top shape_right empty_run F_after X_after
    by (intro conjI) simp_all
qed

section \<open>Claim on overlapping windows\<close>

text \<open>
  Claim C4, as amended. In a run of the second pass in which every cell is processed
  successfully (\<open>index\<close> returns its coordinates and its block contains a pixel of the
  raster), take two cells whose blocks both contain the pixel \<open>(p, q)\<close>, the later of
  which is the last cell of the run whose block contains that pixel. Then the pass ends
  with two arrays, and in both of them the pixel holds the value the later cell computes:
  its \<open>F_sky\<close>, and the downscaling factor of the Laplacian at the pixel with the later
  cell's \<open>mu\<close>.
\<close>

theorem C4_last_write_wins:
  assumes "rect h w (band1 dem)" "3 \<le> h" "3 \<le> w"
    and "\<forall>k<length cells. \<exists>rc p' q'. array_coords_of dem (cells ! k) = Inr rc
                                       \<and> in_block h w rc p' q'"
    and "i < j" "j < length cells"
    and "array_coords_of dem (cells ! i) = Inr rci" "in_block h w rci p q"
    and "array_coords_of dem (cells ! j) = Inr rcj" "in_block h w rcj p q"
    and "\<forall>k rc. j < k \<and> k < length cells \<and> array_coords_of dem (cells ! k) = Inr rc
                 \<longrightarrow> \<not> in_block h w rc p q"
  shows "\<exists>F X nabla. raster_pass dem cells = Inr (NdArray F, NdArray X)
           \<and> compute_elevation_laplacien (band1 dem) global_delta_x = Inr nabla
           \<and> F ! p ! q = cell_F_sky dem rcj
           \<and> X ! p ! q = compute_downscaling_factor (nabla ! p ! q) (cell_mu dem rcj)"
  using assms(1-4,6,9-11) by (rule raster_pass_last_write)

theorem C4_last_write_wins_witness:
  "rect 3 3 (band1 ramp_dem) \<and> (3::nat) \<le> 3
   \<and> (0::nat) < 1 \<and> 1 < length [cell_low, cell_centre, cell_at 64 1]
   \<and> array_coords_of ramp_dem ([cell_low, cell_centre, cell_at 64 1] ! 0) = Inr (63, 1)
   \<and> in_block 3 3 (63, 1) 1 1
   \<and> array_coords_of ramp_dem ([cell_low, cell_centre, cell_at 64 1] ! 1) = Inr (1, 1)
   \<and> in_block 3 3 (1, 1) 1 1
   \<and> array_coords_of ramp_dem ([cell_low, cell_centre, cell_at 64 1] ! 2) = Inr (64, 1)
   \<and> in_block 3 3 (64, 1) 2 1 \<and> \<not> in_block 3 3 (64, 1) 1 1
   \<and> (\<exists>F X nabla.
         raster_pass ramp_dem [cell_low, cell_centre, cell_at 64 1] = Inr (NdArray F, NdArray X)
         \<and> compute_elevation_laplacien (band1 ramp_dem) global_delta_x = Inr nabla
         \<and> F ! 1 ! 1 = cell_F_sky ramp_dem (1, 1)
         \<and> X ! 1 ! 1 = compute_downscaling_factor (nabla ! 1 ! 1) (cell_mu ramp_dem (1, 1)))"
proof -
  let ?cells = "[cell_low, cell_centre, cell_at 64 1]"
  have a1: "rect 3 3 (band1 ramp_dem)" by (rule ramp_dem_rect)
  have a2: "(3::nat) \<le> 3" by simp
  have c0: "array_coords_of ramp_dem (?cells ! 0) = Inr (63, 1)"
    by (simp add: ramp_dem_coords)
  have c1: "array_coords_of ramp_dem (?cells ! 1) = Inr (1, 1)"
    by (simp add: ramp_dem_coords)
  have c2: "array_coords_of ramp_dem (?cells ! 2) = Inr (64, 1)"
    by (simp add: ramp_dem_coords_at)
  have b0: "in_block 3 3 (63, 1) 1 1" by (simp add: ramp_dem_blocks)
  have b1: "in_block 3 3 (1, 1) 1 1" by (simp add: ramp_dem_blocks)
  have b2: "in_block 3 3 (64, 1) 2 1" "\<not> in_block 3 3 (64, 1) 1 1"
    by (simp_all add: ramp_dem_block_last_row)
  have a4: "\<forall>k<length ?cells.
         \<exists>rc p' q'. array_coords_of ramp_dem (?cells ! k) = Inr rc \<and> in_block 3 3 rc p' q'"
  proof (intro allI impI)
    fix k assume "k < length ?cells"
    then consider "k = 0" | "k = 1" | "k = 2" by fastforce
    then show "\<exists>rc p' q'. array_coords_of ramp_dem (?cells ! k) = Inr rc
                     \<and> in_block 3 3 rc p' q'"
    proof cases
      case 1 then show ?thesis using c0 b0 by blast
    next
      case 2 then show ?thesis using c1 b1 by blast
    next
      case 3 then show ?thesis using c2 b2(1) by blast
    qed
  qed
  have a5: "(0::nat) < 1" by simp
  have a6: "1 < length ?cells" by simp
  have a11: "\<forall>k rc. 1 < k \<and> k < length ?cells
                \<and> array_coords_of ramp_dem (?cells ! k) = Inr rc
                \<longrightarrow> \<not> in_block 3 3 rc 1 1"
  proof (intro allI impI)
    fix k rc
    assume k: "1 < k \<and> k < length ?cells \<and> array_coords_of ramp_dem (?cells ! k) = Inr rc"
    then have "k = 2" by simp
    then have "rc = (64, 1)" using k c2 by simp
    then show "\<not> in_block 3 3 rc 1 1" using b2(2) by simp
  qed
  show ?thesis
    using a1 a2 a5 a6 c0 b0 c1 b1 c2 b2
      C4_last_write_wins [OF a1 a2 a2 a4 a5 a6 c0 b0 c1 b1 a11]
    by (intro conjI)
qed

text \<open>
  The claim as stated fails when a third cell follows whose block contains the pixel too.
  On the 3 by 3 raster the blocks of the low cell and of the centre cell both contain the
  pixel \<open>(2, 1)\<close>, and after these two the pixel holds the centre cell's \<open>F_sky\<close>, a
  number. The block of a cell centred 64 rows down is the last row alone; its window has
  one row, its \<open>mu\<close> and \<open>F_sky\<close> are NaN, and processed after the two it leaves NaN
  in the pixel.
\<close>

theorem C4_later_of_two_counterexample:
  "F_pixel (raster_pass ramp_dem [cell_low, cell_centre]) 2 1 \<noteq> Some NaN
   \<and> F_pixel (raster_pass ramp_dem [cell_low, cell_centre, cell_at 64 1]) 2 1 = Some NaN"
proof
  let ?two = "[cell_low, cell_centre]"
  let ?three = "[cell_low, cell_centre, cell_at 64 1]"
  have c: "array_coords_of ramp_dem cell_low = Inr (63, 1)"
    "array_coords_of ramp_dem cell_centre = Inr (1, 1)"
    "array_coords_of ramp_dem (cell_at 64 1) = Inr (64, 1)"
    by (simp_all add: ramp_dem_coords ramp_dem_coords_at)
  have b: "in_block 3 3 (63, 1) 2 1" "in_block 3 3 (1, 1) 2 1" "in_block 3 3 (64, 1) 2 1"
    by (simp_all add: ramp_dem_blocks ramp_dem_block_last_row)
  have ok2: "\<forall>k<length ?two.
         \<exists>rc p' q'. array_coords_of ramp_dem (?two ! k) = Inr rc \<and> in_block 3 3 rc p' q'"
  proof (intro allI impI)
    fix k assume "k < length ?two"
    then consider "k = 0" | "k = 1" by fastforce
    then show "\<exists>rc p' q'. array_coords_of ramp_dem (?two ! k) = Inr rc
                 \<and> in_block 3 3 rc p' q'"
      using c b by cases fastforce+
  qed
  have ok3: "\<forall>k<length ?three.
         \<exists>rc p' q'. array_coords_of ramp_dem (?three ! k) = Inr rc \<and> in_block 3 3 rc p' q'"
  proof (intro allI impI)
    fix k assume "k < length ?three"
    then consider "k = 0" | "k = 1" | "k = 2" by fastforce
    then show "\<exists>rc p' q'. array_coords_of ramp_dem (?three ! k) = Inr rc
                 \<and> in_block 3 3 rc p' q'"
      using c b by cases fastforce+
  qed
  have last2: "\<forall>k rc. 1 < k \<and> k < length ?two \<and> array_coords_of ramp_dem (?two ! k) = Inr rc
                 \<longrightarrow> \<not> in_block 3 3 rc 2 1"
    by auto
  have last3: "\<forall>k rc. 2 < k \<and> k < length ?three
                 \<and> array_coords_of ramp_dem (?three ! k) = Inr rc
                 \<longrightarrow> \<not> in_block 3 3 rc 2 1"
    by auto
  obtain f where f: "cell_F_sky ramp_dem (1, 1) = Fin f"
    using ramp_dem_F_sky_centre by blast
  have "\<exists>F X nabla. raster_pass ramp_dem ?two = Inr (NdArray F, NdArray X)
           \<and> compute_elevation_laplacien (band1 ramp_dem) global_delta_x = Inr nabla
           \<and> F ! 2 ! 1 = cell_F_sky ramp_dem (1, 1)
           \<and> X ! 2 ! 1 = compute_downscaling_factor (nabla ! 2 ! 1) (cell_mu ramp_dem (1, 1))"
    by (rule raster_pass_last_write [OF ramp_dem_rect order_refl order_refl ok2 _ _ b(2) last2])
       (simp_all add: c)
  then show "F_pixel (raster_pass ramp_dem ?two) 2 1 \<noteq> Some NaN"
    using f by (auto simp: F_pixel_def)
  have "subset_array (band1 ramp_dem) (64, 1) = [[2, 2, 2]]"
    by (simp add: subset_array_def slice2_def py_slice_def block_rows_def block_cols_def
        slice_start_def slice_stop_def slice_index_def ramp_dem_def)
  moreover have "rect 1 3 [[2, 2, 2 :: real]]"
    by (simp add: rect_def)
  ultimately have "cell_mu ramp_dem (64, 1) = NaN"
    by (simp add: cell_mu_def mean_squared_slope_degenerate)
  then have nan: "cell_F_sky ramp_dem (64, 1) = NaN"
    by (simp add: cell_F_sky_def sky_view_factor_NaN)
  have "\<exists>F X nabla. raster_pass ramp_dem ?three = Inr (NdArray F, NdArray X)
           \<and> compute_elevation_laplacien (band1 ramp_dem) global_delta_x = Inr nabla
           \<and> F ! 2 ! 1 = cell_F_sky ramp_dem (64, 1)
           \<and> X ! 2 ! 1 = compute_downscaling_factor (nabla ! 2 ! 1) (cell_mu ramp_dem (64, 1))"
    by (rule raster_pass_last_write [OF ramp_dem_rect order_refl order_refl ok3 _ _ b(3) last3])
       (simp_all add: c)
  then show "F_pixel (raster_pass ramp_dem ?three) 2 1 = Some NaN"
    using nan by (auto simp: F_pixel_def)
qed

section \<open>A failing cell in the second pass\<close>

text \<open>
  Claim C1 asks that a failing cell leaves both rasters as they were and that the run goes
  on. On the 3 by 3 raster the window of the far cell is empty, \<open>np.vectorize\<close> raises
  inside the \<^verbatim>\<open>try\<close>, the wrapper returns \<^verbatim>\<open>(-999, -999)\<close>, and the loop binds
  both raster variables to it: what the centre cell wrote before is gone, and the centre
  cell processed afterwards cannot write any more.
\<close>

theorem C1_failing_cell_replaces_rasters:
  "(\<exists>F X f. raster_pass ramp_dem [cell_centre] = Inr (NdArray F, NdArray X)
             \<and> F ! 1 ! 1 = Fin f \<and> 0 < f)
   \<and> raster_pass ramp_dem [cell_far] = Inr (PyInt (- 999), PyInt (- 999))
   \<and> raster_pass ramp_dem [cell_centre, cell_far] = Inr (PyInt (- 999), PyInt (- 999))
   \<and> raster_pass ramp_dem [cell_centre, cell_far, cell_centre]
       = Inr (PyInt (- 999), PyInt (- 999))"
proof (rule raster_pass_unfold [OF ramp_dem_rect order_refl order_refl])
  fix nabla F0 X0
  assume r: "rect 3 3 nabla" "rect 3 3 F0" "rect 3 3 X0"
    and pass: "\<And>cells. raster_pass ramp_dem cells
                 = raster_loop cells ramp_dem (NdArray F0, NdArray X0) nabla"
  have h: "(0::nat) < 3" by simp
  have blk: "in_block 3 3 (1, 1) 1 1" by (simp add: ramp_dem_blocks)
  let ?F1 = "map (\<lambda>p. map (\<lambda>q. if in_block 3 3 (1, 1) p q then cell_F_sky ramp_dem (1, 1)
                               else F0 ! p ! q) [0..<3]) [0..<3]"
  let ?X1 = "map (\<lambda>p. map (\<lambda>q. if in_block 3 3 (1, 1) p q
                               then compute_downscaling_factor (nabla ! p ! q)
                                      (cell_mu ramp_dem (1, 1))
                               else X0 ! p ! q) [0..<3]) [0..<3]"
  have centre: "downscaling_parameters_processing_wrapper cell_centre ramp_dem
                  (NdArray F0) (NdArray X0) nabla = Inr (NdArray ?F1, NdArray ?X1)"
    by (rule wrapper_writes_block [OF r(2,3,1) h ramp_dem_coords(1) blk])
  have far: "\<And>F_array X_array.
               downscaling_parameters_processing_wrapper cell_far ramp_dem F_array X_array nabla
               = Inr (PyInt (- 999), PyInt (- 999))"
    by (rule wrapper_skips_to_integers [OF r(1) ramp_dem_coords(3)])
       (simp add: ramp_dem_blocks)
  have again: "\<And>X_array.
               downscaling_parameters_processing_wrapper cell_centre ramp_dem
                 (PyInt (- 999)) X_array nabla = Inr (PyInt (- 999), PyInt (- 999))"
    by (rule wrapper_on_integer [OF ramp_dem_coords(1)])
  obtain f where f: "cell_F_sky ramp_dem (1, 1) = Fin f" "0 < f"
    using ramp_dem_F_sky_centre by blast
  have "?F1 ! 1 ! 1 = Fin f"
    using blk f(1) by simp
  then have one: "\<exists>F X f. raster_pass ramp_dem [cell_centre] = Inr (NdArray F, NdArray X)
                    \<and> F ! 1 ! 1 = Fin f \<and> 0 < f"
    using f(2) by (simp add: pass centre)
  have two: "raster_pass ramp_dem [cell_far] = Inr (PyInt (- 999), PyInt (- 999))"
    by (simp add: pass far)
  have three: "raster_pass ramp_dem [cell_centre, cell_far] = Inr (PyInt (- 999), PyInt (- 999))"
    by (simp add: pass centre far)
  have four: "raster_pass ramp_dem [cell_centre, cell_far, cell_centre]
              = Inr (PyInt (- 999), PyInt (- 999))"
    by (simp add: pass centre far again)
  show ?thesis
    using one two three four by (intro conjI)
qed

end
